theory Spec2Isabelle
  imports Complex_Main "HOL-Library.AList"
begin

section \<open>Python strings and built-ins used by the program\<close>

text \<open>
  Python \<open>str\<close> and \<open>bytes\<close> values are modelled as \<^typ>\<open>string\<close>. The character
  classes and the case mapping are those of ASCII: the channel output, host names, IP
  addresses and aliases the program handles are ASCII text, and a character outside ASCII
  is treated as an ordinary character (no letter, no digit, no white space). Integers
  are unbounded, and \<open>int\<close> reads a literal of any length: the interpreter's limit on
  the number of digits of a literal is not modelled.
  Exceptions are values of \<open>py_error\<close>; a built-in that can raise returns
  \<open>py_error + 'a\<close>.
\<close>

datatype py_error = ValueError | IndexError | AttributeError | TypeError | KeyError

definition isspace :: "char \<Rightarrow> bool" where
  \<comment> \<open>\<open>str.isspace\<close> on ASCII: TAB, LF, VT, FF, CR, FS, GS, RS, US and the blank\<close>
  "isspace c = (of_char c \<in> {9, 10, 11, 12, 13, 28, 29, 30, 31, 32 :: nat})"

definition isdigit :: "char \<Rightarrow> bool" where
  "isdigit c = (48 \<le> (of_char c :: nat) \<and> (of_char c :: nat) \<le> 57)"

definition lower_char :: "char \<Rightarrow> char" where
  "lower_char c =
     (if 65 \<le> (of_char c :: nat) \<and> (of_char c :: nat) \<le> 90
      then char_of (of_char c + 32 :: nat) else c)"

definition py_lower :: "string \<Rightarrow> string" where
  "py_lower s = map lower_char s"

definition startswith :: "string \<Rightarrow> string \<Rightarrow> bool" where
  "startswith s p = (take (length p) s = p)"

definition endswith :: "string \<Rightarrow> string \<Rightarrow> bool" where
  "endswith s p = (length p \<le> length s \<and> drop (length s - length p) s = p)"

definition py_strip :: "string \<Rightarrow> string" where
  \<comment> \<open>\<open>s.strip()\<close>\<close>
  "py_strip s = rev (dropWhile isspace (rev (dropWhile isspace s)))"

definition rstrip_dots :: "string \<Rightarrow> string" where
  \<comment> \<open>\<open>s.rstrip(".")\<close>\<close>
  "rstrip_dots s = rev (dropWhile (\<lambda>c. c = CHR ''.'') (rev s))"

fun split_ws :: "string \<Rightarrow> string \<Rightarrow> string list" where
  \<comment> \<open>\<open>s.split()\<close>: the maximal runs of non-blank characters; the first argument is the
      token read so far\<close>
  "split_ws cur [] = (if cur = [] then [] else [cur])"
| "split_ws cur (c # cs) =
     (if isspace c then (if cur = [] then split_ws [] cs else cur # split_ws [] cs)
      else split_ws (cur @ [c]) cs)"

definition py_split :: "string \<Rightarrow> string list" where
  "py_split s = split_ws [] s"

definition last_item :: "'a list \<Rightarrow> py_error + 'a" where
  \<comment> \<open>\<open>xs[-1]\<close>\<close>
  "last_item xs = (if xs = [] then Inl IndexError else Inr (last xs))"

definition digit_val :: "char \<Rightarrow> nat" where
  "digit_val c = of_char c - 48"

definition nat_of_digits :: "string \<Rightarrow> nat" where
  "nat_of_digits ds = foldl (\<lambda>a c. 10 * a + digit_val c) 0 ds"

fun digits_us :: "string \<Rightarrow> bool" where
  \<comment> \<open>the literal grammar of \<open>int\<close>: digits, single underscores between digits\<close>
  "digits_us [] = False"
| "digits_us [c] = isdigit c"
| "digits_us (c # d # cs) =
     (isdigit c \<and> (if d = CHR ''_'' then digits_us cs else digits_us (d # cs)))"

definition py_int :: "string \<Rightarrow> py_error + int" where
  \<comment> \<open>\<open>int(s)\<close> for a string: surrounding white space, an optional sign, a decimal literal\<close>
  "py_int s =
     (let t = py_strip s;
          neg = (t \<noteq> [] \<and> hd t = CHR ''-'');
          body = (if t \<noteq> [] \<and> (hd t = CHR ''-'' \<or> hd t = CHR ''+'') then tl t else t)
      in if digits_us body
         then (let v = int (nat_of_digits (filter (\<lambda>c. c \<noteq> CHR ''_'') body))
               in Inr (if neg then - v else v))
         else Inl ValueError)"

definition digit_char :: "nat \<Rightarrow> char" where
  "digit_char d = char_of (48 + d)"

function str_nat :: "nat \<Rightarrow> string" where
  "str_nat n = (if n < 10 then [digit_char n] else str_nat (n div 10) @ [digit_char (n mod 10)])"
  by pat_completeness auto
termination
  by (relation "measure (\<lambda>n. n)") auto

definition str_int :: "int \<Rightarrow> string" where
  \<comment> \<open>\<open>str(i)\<close>, as the f-strings format an integer\<close>
  "str_int i = (if i < 0 then CHR ''-'' # str_nat (nat (- i)) else str_nat (nat i))"

fun contains :: "string \<Rightarrow> string \<Rightarrow> bool" where
  \<comment> \<open>\<open>sub in s\<close>\<close>
  "contains sub [] = (sub = [])"
| "contains sub (c # cs) = (startswith (c # cs) sub \<or> contains sub cs)"

section \<open>The alias manager (discovery/device.py)\<close>

text \<open>
  The discovery engine creates its \<open>DeviceAliasManager\<close> without a path. The map of
  such a manager holds only what \<open>alias_for\<close> has put there, keys and aliases that
  are strings; it is modelled as an association list in insertion order, the order in
  which Python iterates the dict, and \<open>next_index\<close>, \<open>alias_for\<close> below are the
  methods on such a map. A manager with a path takes its map from \<open>_load\<close>, which
  keeps whatever JSON document the file holds; the methods on a loaded map are modelled
  after them (\<open>next_index_loaded\<close>, \<open>alias_for_loaded\<close>), with every exception the
  source raises there, and on a dict of strings they agree with the methods below.
  \<open>_save\<close> writes the map to disk when a path is configured and swallows every
  exception; it does not change the map, so it does not appear in the model.
\<close>

type_synonym alias_map = "(string \<times> string) list"

definition try_add :: "int list \<Rightarrow> string \<Rightarrow> py_error + int list" where
  \<comment> \<open>the body of the \<open>try\<close> in \<open>_next_index\<close>: \<open>used.add(int(alias.split()[-1]))\<close>\<close>
  "try_add used alias =
     (case last_item (py_split alias) of
        Inl e \<Rightarrow> Inl e
      | Inr tok \<Rightarrow> (case py_int tok of Inl e \<Rightarrow> Inl e | Inr v \<Rightarrow> Inr (List.insert v used)))"

definition note_alias :: "int list \<Rightarrow> string \<Rightarrow> int list" where
  \<comment> \<open>one iteration of the \<open>for\<close> loop of \<open>_next_index\<close>; \<open>except Exception: pass\<close>
      leaves \<open>used\<close> as it was\<close>
  "note_alias used alias =
     (if startswith (py_lower alias) ''bjorn ''
      then (case try_add used alias of Inl e \<Rightarrow> used | Inr used' \<Rightarrow> used')
      else used)"

definition collect_used :: "string list \<Rightarrow> int list" where
  \<comment> \<open>the set \<open>used\<close> after the \<open>for\<close> loop over \<open>self.map.values()\<close>\<close>
  "collect_used aliases = foldl note_alias [] aliases"

function first_free :: "int list \<Rightarrow> int \<Rightarrow> int" where
  \<comment> \<open>\<open>while n in used: n += 1\<close>\<close>
  "first_free used n = (if n \<in> set used then first_free used (n + 1) else n)"
  by pat_completeness auto
termination
proof (relation "measure (\<lambda>(used, n). nat (Max (set used) + 1 - n))")
  show "wf (measure (\<lambda>(used, n). nat (Max (set used) + 1 - n)))"
    by simp
next
  fix used :: "int list" and n :: int
  assume "n \<in> set used"
  then have "n \<le> Max (set used)"
    by simp
  then show "((used, n + 1), (used, n)) \<in> measure (\<lambda>(used, n). nat (Max (set used) + 1 - n))"
    by simp
qed

definition next_index :: "alias_map \<Rightarrow> int" where
  \<comment> \<open>\<open>_next_index\<close>\<close>
  "next_index m = first_free (collect_used (map snd m)) 1"

definition alias_for :: "alias_map \<Rightarrow> string \<Rightarrow> string \<times> alias_map" where
  \<comment> \<open>\<open>alias_for\<close>: the alias returned and the map afterwards\<close>
  "alias_for m device_id =
     (case map_of m device_id of
        Some a \<Rightarrow> (a, m)
      | None \<Rightarrow>
          (let alias = ''Bjorn '' @ str_int (next_index m)
           in (alias, AList.update device_id alias m)))"

fun alias_calls :: "alias_map \<Rightarrow> string list \<Rightarrow> string list \<times> alias_map" where
  \<comment> \<open>a sequence of \<open>alias_for\<close> calls on one manager: the aliases returned, in order, and
      the final map\<close>
  "alias_calls m [] = ([], m)"
| "alias_calls m (k # ks) =
     (let (a, m') = alias_for m k; (as, m'') = alias_calls m' ks in (a # as, m''))"

text \<open>
  The number an alias carries, as \<open>_next_index\<close> reads it: the alias starts with
  \<open>bjorn\<close> and a blank in any letter case, and its last blank-separated token is an
  integer literal. An alias that carries no number is called malformed.
\<close>

definition alias_number :: "string \<Rightarrow> int option" where
  "alias_number alias =
     (if startswith (py_lower alias) ''bjorn '' \<and> py_split alias \<noteq> []
      then (case py_int (last (py_split alias)) of Inl e \<Rightarrow> None | Inr v \<Rightarrow> Some v)
      else None)"

definition used_numbers :: "alias_map \<Rightarrow> int set" where
  "used_numbers m = set (List.map_filter alias_number (map snd m))"

text \<open>Keys are bound once, and no alias is bound to two keys.\<close>

definition alias_inv :: "alias_map \<Rightarrow> bool" where
  "alias_inv m = (distinct (map fst m) \<and> distinct (map snd m))"

definition bjorn_name :: "nat \<Rightarrow> string" where
  \<comment> \<open>the alias with a given number\<close>
  "bjorn_name i = ''Bjorn '' @ str_int (int i)"

subsection \<open>A map loaded from the persistence file\<close>

text \<open>
  \<open>json.load\<close> returns any JSON document: the map of a manager with a path can be a
  dict with values that are no strings, or no dict at all. A dict is an association list
  in insertion order, as above. In \<open>_next_index\<close> the calls
  \<open>self.map.values()\<close> and \<open>alias.lower()\<close> are outside the \<open>try\<close>, so what they
  raise leaves \<open>alias_for\<close>.
\<close>

datatype json =
    JNull
  | JBool bool
  | JNum real
  | JStr string
  | JArr "json list"
  | JObj "(string \<times> json) list"

definition load :: "json option \<Rightarrow> json" where
  \<comment> \<open>\<open>_load\<close>: the document in the file, or the empty dict when the file cannot be read
      or parsed\<close>
  "load file = (case file of None \<Rightarrow> JObj [] | Some doc \<Rightarrow> doc)"

definition member_loaded :: "string \<Rightarrow> json \<Rightarrow> py_error + bool" where
  \<comment> \<open>\<open>device_id in self.map\<close>: a key of a dict, an element of a list, a substring of a
      string; the other values are not iterable\<close>
  "member_loaded device_id doc =
     (case doc of
        JObj kvs \<Rightarrow> Inr (map_of kvs device_id \<noteq> None)
      | JArr xs \<Rightarrow> Inr (JStr device_id \<in> set xs)
      | JStr s \<Rightarrow> Inr (contains device_id s)
      | JNull \<Rightarrow> Inl TypeError
      | JBool b \<Rightarrow> Inl TypeError
      | JNum x \<Rightarrow> Inl TypeError)"

definition item_loaded :: "json \<Rightarrow> string \<Rightarrow> py_error + json" where
  \<comment> \<open>\<open>self.map[device_id]\<close>: only a dict is indexed by a string\<close>
  "item_loaded doc device_id =
     (case doc of
        JObj kvs \<Rightarrow> (case map_of kvs device_id of None \<Rightarrow> Inl KeyError | Some v \<Rightarrow> Inr v)
      | JArr xs \<Rightarrow> Inl TypeError
      | JStr s \<Rightarrow> Inl TypeError
      | JNull \<Rightarrow> Inl TypeError
      | JBool b \<Rightarrow> Inl TypeError
      | JNum x \<Rightarrow> Inl TypeError)"

definition note_loaded :: "int list \<Rightarrow> json \<Rightarrow> py_error + int list" where
  \<comment> \<open>one iteration of the \<open>for\<close> loop of \<open>_next_index\<close> on a loaded value:
      \<open>alias.lower()\<close> is outside the \<open>try\<close>, and only a string has the method\<close>
  "note_loaded used v =
     (case v of
        JStr alias \<Rightarrow> Inr (note_alias used alias)
      | JNull \<Rightarrow> Inl AttributeError
      | JBool b \<Rightarrow> Inl AttributeError
      | JNum x \<Rightarrow> Inl AttributeError
      | JArr xs \<Rightarrow> Inl AttributeError
      | JObj kvs \<Rightarrow> Inl AttributeError)"

fun collect_loaded :: "json list \<Rightarrow> int list \<Rightarrow> py_error + int list" where
  \<comment> \<open>the \<open>for\<close> loop of \<open>_next_index\<close> over loaded values, from the set \<open>used\<close>\<close>
  "collect_loaded [] used = Inr used"
| "collect_loaded (v # vs) used =
     (case note_loaded used v of Inl e \<Rightarrow> Inl e | Inr used' \<Rightarrow> collect_loaded vs used')"

definition next_index_loaded :: "json \<Rightarrow> py_error + int" where
  \<comment> \<open>\<open>_next_index\<close> on a loaded map: \<open>self.map.values()\<close> exists for a dict only\<close>
  "next_index_loaded doc =
     (case doc of
        JObj kvs \<Rightarrow>
          (case collect_loaded (map snd kvs) [] of
             Inl e \<Rightarrow> Inl e
           | Inr used \<Rightarrow> Inr (first_free used 1))
      | JArr xs \<Rightarrow> Inl AttributeError
      | JStr s \<Rightarrow> Inl AttributeError
      | JNull \<Rightarrow> Inl AttributeError
      | JBool b \<Rightarrow> Inl AttributeError
      | JNum x \<Rightarrow> Inl AttributeError)"

definition store_loaded :: "json \<Rightarrow> string \<Rightarrow> json \<Rightarrow> py_error + json" where
  \<comment> \<open>\<open>self.map[device_id] = alias\<close>\<close>
  "store_loaded doc device_id v =
     (case doc of
        JObj kvs \<Rightarrow> Inr (JObj (AList.update device_id v kvs))
      | JArr xs \<Rightarrow> Inl TypeError
      | JStr s \<Rightarrow> Inl TypeError
      | JNull \<Rightarrow> Inl TypeError
      | JBool b \<Rightarrow> Inl TypeError
      | JNum x \<Rightarrow> Inl TypeError)"

definition alias_for_loaded :: "json \<Rightarrow> string \<Rightarrow> py_error + (json \<times> json)" where
  \<comment> \<open>\<open>alias_for\<close> on a loaded map: the value returned and the map afterwards, or the
      exception that leaves the method\<close>
  "alias_for_loaded doc device_id =
     (case member_loaded device_id doc of
        Inl e \<Rightarrow> Inl e
      | Inr True \<Rightarrow>
          (case item_loaded doc device_id of Inl e \<Rightarrow> Inl e | Inr v \<Rightarrow> Inr (v, doc))
      | Inr False \<Rightarrow>
          (case next_index_loaded doc of
             Inl e \<Rightarrow> Inl e
           | Inr n \<Rightarrow>
               (case store_loaded doc device_id (JStr (''Bjorn '' @ str_int n)) of
                  Inl e \<Rightarrow> Inl e
                | Inr doc' \<Rightarrow> Inr (JStr (''Bjorn '' @ str_int n), doc'))))"

definition strings :: "alias_map \<Rightarrow> json" where
  \<comment> \<open>a map whose values are strings, as a loaded document\<close>
  "strings m = JObj (map (\<lambda>(k, a). (k, JStr a)) m)"

section \<open>The discovery engine (discovery/manager.py)\<close>

text \<open>
  The events pushed to \<open>api_callback\<close>, one constructor per event tag. Every call of the
  callback in the source is guarded by \<open>if self.api_callback\<close>: without a callback
  nothing is emitted.
\<close>

datatype event =
    Log string string
  | Progress int int string
  | DeviceFound string string bool
  | DeviceGone string
  | WebappStatus string bool

definition notify :: "bool \<Rightarrow> event \<Rightarrow> event list" where
  "notify cb e = (if cb then [e] else [])"

fun event_address :: "event \<Rightarrow> string option" where
  "event_address (Log msg level) = None"
| "event_address (Progress n m txt) = None"
| "event_address (DeviceFound a ip up) = Some ip"
| "event_address (DeviceGone ip) = Some ip"
| "event_address (WebappStatus ip up) = Some ip"

text \<open>
  A registry entry is the dict \<open>{"alias", "ips", "last_seen"}\<close>. Python sets
  (\<open>ips\<close>, \<open>_seen_ips\<close>) are lists without repetition, in insertion order; the order
  in which Python iterates a set is not specified, and no theorem below depends on it.
  Time stamps of \<open>time.time()\<close> are real numbers; the only arithmetic on them is the
  staleness test of the sweeper.
\<close>

record device_rec =
  d_alias :: string
  d_ips :: "string list"
  d_last_seen :: real

record discovery =
  has_callback :: bool
  strict_bjorn_only :: bool
  seen_ips :: "string list"
  alias_mgr :: alias_map
  registry :: "(string \<times> device_rec) list"
  stale_timeout :: real
  ignored_ips :: "string set"

definition build_ignored_ips :: "string list \<Rightarrow> string list \<Rightarrow> string set" where
  \<comment> \<open>\<open>_build_ignored_ips\<close>: the gateway addresses and the host's own addresses that
      \<open>netifaces\<close> reported, and the four common router addresses\<close>
  "build_ignored_ips gateways own =
     set gateways \<union> {''192.168.1.1'', ''192.168.0.1'', ''192.168.1.254'', ''10.0.0.1''} \<union> set own"

definition init_discovery :: "bool \<Rightarrow> bool \<Rightarrow> string list \<Rightarrow> string list \<Rightarrow> discovery" where
  \<comment> \<open>\<open>__init__\<close>\<close>
  "init_discovery cb strict gateways own =
     \<lparr>has_callback = cb, strict_bjorn_only = strict, seen_ips = [], alias_mgr = [],
      registry = [], stale_timeout = 90, ignored_ips = build_ignored_ips gateways own\<rparr>"

definition ip_tag :: "string \<Rightarrow> string" where
  "ip_tag ip =
     (if startswith ip ''172.20.2.'' then ''USB''
      else if startswith ip ''172.20.1.'' then ''Bluetooth''
      else ''LAN'')"

definition normalize_host :: "string option \<Rightarrow> string" where
  "normalize_host host =
     (case host of
        None \<Rightarrow> []
      | Some h0 \<Rightarrow>
          if h0 = [] then []
          else (let h = rstrip_dots (py_lower (py_strip h0))
                in if endswith h ''.local'' then take (length h - 6) h
                   else if endswith h ''.home'' then take (length h - 5) h
                   else h))"

definition is_bjorn_hostname :: "string \<Rightarrow> bool" where
  "is_bjorn_hostname host_or_fullname =
     (if host_or_fullname = [] then False
      else (let s = rstrip_dots (py_lower (py_strip host_or_fullname))
            in if s = ''bjorn.local'' \<or> s = ''bjorn.home'' then True
               else if startswith s ''bjorn'' \<and> (endswith s ''.local'' \<or> endswith s ''.home'')
               then True
               else s = ''bjorn'' \<or> startswith s ''bjorn-'' \<or> startswith s ''bjorn_''))"

definition py_or :: "string \<Rightarrow> string option \<Rightarrow> string option" where
  \<comment> \<open>\<open>label or self._reverse_hostname(ip)\<close>: the lookup result counts only when the
      label is empty\<close>
  "py_or lbl looked_up = (if lbl \<noteq> [] then Some lbl else looked_up)"

definition device_key :: "string \<Rightarrow> string \<Rightarrow> string option \<Rightarrow> string" where
  \<comment> \<open>\<open>_device_key\<close>; the third argument is what its own reverse lookup returns\<close>
  "device_key lbl ip looked_up =
     (let host = normalize_host (py_or lbl looked_up)
      in if is_bjorn_hostname host then host else ip)"

text \<open>
  One call of \<open>_emit_device\<close> with what the environment answers during the call: the
  results of the reverse lookups in \<open>_emit_device\<close> and in \<open>_device_key\<close> (made only
  when the label is empty), the result of the probe of port 8000, and the clock.
\<close>

record sighting =
  s_label :: string
  s_ip :: string
  rdns_first :: "string option"
  rdns_second :: "string option"
  webapp :: bool
  seen_at :: real

definition emit_device :: "sighting \<Rightarrow> discovery \<Rightarrow> event list \<times> discovery" where
  "emit_device s st =
     (if s_ip s \<in> ignored_ips st then ([], st)
      else
        (let st1 = st\<lparr>seen_ips := List.insert (s_ip s) (seen_ips st)\<rparr>;
             host = normalize_host (py_or (s_label s) (rdns_first s))
         in if strict_bjorn_only st1 \<and> \<not> is_bjorn_hostname host then ([], st1)
            else
              (let key = device_key host (s_ip s) (rdns_second s);
                   tag = ip_tag (s_ip s);
                   (base_alias, aliases) = alias_for (alias_mgr st1) key;
                   alias = base_alias @ '' ('' @ tag @ '')'';
                   now = seen_at s;
                   found = map_of (registry st1) key;
                   is_new_device = (found = None);
                   rec0 = (case found of
                             None \<Rightarrow> \<lparr>d_alias = base_alias, d_ips = [], d_last_seen = now\<rparr>
                           | Some r \<Rightarrow> r);
                   is_new_ip_for_device = (s_ip s \<notin> set (d_ips rec0));
                   rec1 = (if is_new_ip_for_device
                           then rec0\<lparr>d_ips := d_ips rec0 @ [s_ip s]\<rparr> else rec0);
                   rec2 = rec1\<lparr>d_last_seen := now\<rparr>;
                   st2 = st1\<lparr>alias_mgr := aliases,
                             registry := AList.update key rec2 (registry st1)\<rparr>
               in (if is_new_device \<or> is_new_ip_for_device
                   then notify (has_callback st2) (DeviceFound alias (s_ip s) (webapp s))
                   else [],
                   st2))))"

text \<open>
  One pass of the sweeper loop at clock value \<open>now\<close>. \<open>sweep_items\<close> is the loop over
  \<open>list(self._registry.items())\<close>: for every stale entry, in order, the key appended to
  \<open>to_delete\<close> and the events emitted while the entry is visited.
\<close>

fun sweep_items ::
  "bool \<Rightarrow> real \<Rightarrow> real \<Rightarrow> (string \<times> device_rec) list \<Rightarrow> (string \<times> event list) list" where
  "sweep_items cb now timeout [] = []"
| "sweep_items cb now timeout ((key, r) # items) =
     (if now - d_last_seen r > timeout
      then (key, concat (map (\<lambda>ip. notify cb (DeviceGone ip)) (d_ips r)))
             # sweep_items cb now timeout items
      else sweep_items cb now timeout items)"

fun pop_all :: "string list \<Rightarrow> (string \<times> device_rec) list \<Rightarrow> (string \<times> device_rec) list" where
  \<comment> \<open>\<open>for key in to_delete: self._registry.pop(key, None)\<close>\<close>
  "pop_all [] reg = reg"
| "pop_all (key # keys) reg = pop_all keys (AList.delete key reg)"

definition sweeper_pass :: "real \<Rightarrow> discovery \<Rightarrow> event list \<times> discovery" where
  "sweeper_pass now st =
     (let visited = sweep_items (has_callback st) now (stale_timeout st) (registry st);
          to_delete = map fst visited
      in (concat (map snd visited), st\<lparr>registry := pop_all to_delete (registry st)\<rparr>))"

text \<open>
  One cycle of the poller of port 8000. The thread pool decides in which order the probes
  complete, and the stop flag can end the cycle early: the first argument lists the probes
  that were reported, in order, each with its result. Probes are submitted for the
  addresses of the snapshot of \<open>_seen_ips\<close> only.
\<close>

definition port8000_poll :: "(string \<times> bool) list \<Rightarrow> discovery \<Rightarrow> event list" where
  "port8000_poll completed st =
     concat (map (\<lambda>(ip, up). notify (has_callback st) (WebappStatus ip up))
                 (filter (\<lambda>(ip, up). ip \<in> set (seen_ips st)) completed))"

text \<open>
  \<open>reset\<close> stops the threads, clears the state and starts again; the ignore list and the
  configuration stay. The log lines of \<open>stop\<close> and \<open>start\<close> depend on which threads and
  sockets could be opened; they are given as the first argument.
\<close>

definition reset :: "(string \<times> string) list \<Rightarrow> discovery \<Rightarrow> event list \<times> discovery" where
  "reset logs st =
     (concat (map (\<lambda>(msg, level). notify (has_callback st) (Log msg level)) logs),
      st\<lparr>seen_ips := [], registry := [], alias_mgr := []\<rparr>)"

text \<open>
  The engine as a state machine: the activities run in threads, and each of the steps
  below is taken as a whole. A run is a sequence of steps; its trace is the events in the
  order of emission.
\<close>

datatype action =
    Sighting sighting
  | Sweep real
  | Poll "(string \<times> bool) list"
  | Reset "(string \<times> string) list"

fun step :: "action \<Rightarrow> discovery \<Rightarrow> event list \<times> discovery" where
  "step (Sighting s) st = emit_device s st"
| "step (Sweep now) st = sweeper_pass now st"
| "step (Poll completed) st = (port8000_poll completed st, st)"
| "step (Reset logs) st = reset logs st"

fun run :: "action list \<Rightarrow> discovery \<Rightarrow> event list \<times> discovery" where
  "run [] st = ([], st)"
| "run (a # as) st =
     (let (es, st') = step a st; (es', st'') = run as st' in (es @ es', st''))"

text \<open>
  The key under which a sighting is registered, if the pipeline does not reject it; and
  whether an address is already recorded for a key.
\<close>

definition sighting_key :: "discovery \<Rightarrow> sighting \<Rightarrow> string option" where
  "sighting_key st s =
     (let host = normalize_host (py_or (s_label s) (rdns_first s))
      in if s_ip s \<in> ignored_ips st then None
         else if strict_bjorn_only st \<and> \<not> is_bjorn_hostname host then None
         else Some (device_key host (s_ip s) (rdns_second s)))"

definition known :: "discovery \<Rightarrow> string \<Rightarrow> string \<Rightarrow> bool" where
  "known st key ip =
     (case map_of (registry st) key of None \<Rightarrow> False | Some r \<Rightarrow> ip \<in> set (d_ips r))"

definition reg_inv :: "discovery \<Rightarrow> bool" where
  \<comment> \<open>the registry is a dict and every \<open>ips\<close> a set: no key and no address is repeated\<close>
  "reg_inv st =
     (distinct (map fst (registry st)) \<and> (\<forall>(key, r)\<in>set (registry st). distinct (d_ips r)))"

definition mk_sighting :: "string \<Rightarrow> string \<Rightarrow> bool \<Rightarrow> real \<Rightarrow> sighting" where
  \<comment> \<open>a sighting with a label, for which no reverse lookup is made\<close>
  "mk_sighting lbl ip up now =
     \<lparr>s_label = lbl, s_ip = ip, rdns_first = None, rdns_second = None, webapp = up,
      seen_at = now\<rparr>"

definition seen_rec :: "device_rec option \<Rightarrow> string \<Rightarrow> string \<Rightarrow> real \<Rightarrow> device_rec" where
  \<comment> \<open>the registry entry of a key after a sighting, from the entry found before it\<close>
  "seen_rec found base ip now =
     (case found of
        None \<Rightarrow> \<lparr>d_alias = base, d_ips = [ip], d_last_seen = now\<rparr>
      | Some r \<Rightarrow> r\<lparr>d_ips := (if ip \<in> set (d_ips r) then d_ips r else d_ips r @ [ip]),
                    d_last_seen := now\<rparr>)"

definition clean :: "string \<Rightarrow> discovery \<Rightarrow> bool" where
  \<comment> \<open>an ignored address that is recorded nowhere\<close>
  "clean a st =
     (a \<in> ignored_ips st \<and> a \<notin> set (seen_ips st) \<and> (\<forall>(key, r)\<in>set (registry st). a \<notin> set (d_ips r)))"

definition last_seen_of :: "discovery \<Rightarrow> string \<Rightarrow> real option" where
  \<comment> \<open>\<open>last_seen\<close> of the device registered under a key\<close>
  "last_seen_of st key = map_option d_last_seen (map_of (registry st) key)"

section \<open>The SSH worker (ssh/worker.py)\<close>

text \<open>
  What the worker does besides returning a value is a trace of actions, in order: the events
  it pushes to its callback, the authentication attempts of \<open>client.connect\<close>, the
  keepalive setting, what it writes to the channel, and the call of \<open>reboot\<close>.
\<close>

datatype ssh_action =
    Emit event
  | KeyAuth string "string option"
  | PasswordAuth string
  | Keepalive nat
  | ChanSend string
  | CallReboot

record ssh_config =
  cfg_host :: string
  cfg_port :: int
  cfg_user :: string
  cfg_password :: "string option"
  cfg_key_path :: "string option"
  cfg_sudo_password :: "string option"

record worker =
  w_config :: ssh_config
  w_client :: bool
  w_connected :: bool

definition truthy :: "string option \<Rightarrow> bool" where
  \<comment> \<open>the truth value of an \<open>Optional[str]\<close>: neither \<open>None\<close> nor empty\<close>
  "truthy x = (case x of None \<Rightarrow> False | Some s \<Rightarrow> s \<noteq> [])"

text \<open>
  What \<open>client.connect\<close> answers: it returns, or raises one of the exceptions for which the
  key attempt falls back to the password, or raises anything else. Each exception carries
  its message.
\<close>

datatype connect_outcome =
    Connected
  | AuthenticationException string
  | SSHException string
  | FileNotFoundError string
  | OtherException string

datatype transport_outcome = NoTransport | Transport | TransportError string

text \<open>
  The environment of \<open>connect\<close>: the file system (\<open>expanduser\<close> after \<open>expandvars\<close>,
  \<open>isfile\<close>, the home directory), the answer of the server to an attempt with a key file
  and to an attempt with the password, and what \<open>get_transport\<close> and \<open>set_keepalive\<close> do.
\<close>

record ssh_env =
  expand :: "string \<Rightarrow> string"
  isfile :: "string \<Rightarrow> bool"
  home :: string
  key_connect :: "string \<Rightarrow> connect_outcome"
  password_connect :: connect_outcome
  transport :: transport_outcome

definition private_key_names :: "string list" where
  "private_key_names = [''id_ed25519'', ''id_rsa'', ''id_ecdsa'']"

definition resolve_key_path :: "ssh_env \<Rightarrow> ssh_config \<Rightarrow> string option" where
  "resolve_key_path env cfg =
     (if truthy (cfg_key_path cfg)
      then (let expanded = expand env (the (cfg_key_path cfg))
            in if isfile env expanded then Some expanded else None)
      else List.find (isfile env) (map (\<lambda>name. home env @ ''/.ssh/'' @ name) private_key_names))"

definition basename :: "string \<Rightarrow> string" where
  \<comment> \<open>\<open>os.path.basename\<close>: what follows the last slash\<close>
  "basename p = rev (takeWhile (\<lambda>c. c \<noteq> CHR ''/'') (rev p))"

definition connection_failed :: "string \<Rightarrow> worker \<Rightarrow> bool \<times> ssh_action list \<times> worker" where
  \<comment> \<open>the handler \<open>except Exception as exc\<close> of \<open>connect\<close>\<close>
  "connection_failed msg w =
     (False, [Emit (Log (''[SSH] Connection failed: '' @ msg) ''error'')], w\<lparr>w_connected := False\<rparr>)"

definition connect_finish :: "ssh_env \<Rightarrow> worker \<Rightarrow> bool \<times> ssh_action list \<times> worker" where
  \<comment> \<open>the end of \<open>connect\<close>, once an attempt has succeeded\<close>
  "connect_finish env w =
     (case transport env of
        TransportError msg \<Rightarrow> connection_failed msg w
      | Transport \<Rightarrow> (True, [Keepalive 30], w\<lparr>w_client := True, w_connected := True\<rparr>)
      | NoTransport \<Rightarrow> (True, [], w\<lparr>w_client := True, w_connected := True\<rparr>))"

definition then_do ::
  "ssh_action list \<Rightarrow> bool \<times> ssh_action list \<times> worker \<Rightarrow> bool \<times> ssh_action list \<times> worker" where
  \<comment> \<open>actions done before the rest of the function runs\<close>
  "then_do acts res = (case res of (ok, acts', w') \<Rightarrow> (ok, acts @ acts', w'))"

definition password_phase :: "ssh_env \<Rightarrow> worker \<Rightarrow> bool \<times> ssh_action list \<times> worker" where
  \<comment> \<open>the branch \<open>if not connected\<close> of \<open>connect\<close>\<close>
  "password_phase env w =
     (if \<not> truthy (cfg_password (w_config w))
      then (False, [Emit (Log ''[SSH] No password available for fallback auth'' ''error'')], w)
      else then_do [PasswordAuth (the (cfg_password (w_config w)))]
             (case password_connect env of
                Connected \<Rightarrow>
                  then_do [Emit (Log ''[SSH] Connected via password'' ''info'')] (connect_finish env w)
              | AuthenticationException msg \<Rightarrow> connection_failed msg w
              | SSHException msg \<Rightarrow> connection_failed msg w
              | FileNotFoundError msg \<Rightarrow> connection_failed msg w
              | OtherException msg \<Rightarrow> connection_failed msg w))"

definition connect :: "ssh_env \<Rightarrow> worker \<Rightarrow> bool \<times> ssh_action list \<times> worker" where
  "connect env w =
     (let cfg = w_config w; key_path = resolve_key_path env cfg
      in if truthy key_path
         then then_do
                [KeyAuth (the key_path)
                   (if truthy (cfg_password cfg) then cfg_password cfg else None)]
                (case key_connect env (the key_path) of
                   Connected \<Rightarrow>
                     then_do [Emit (Log (''[SSH] Connected via key: '' @ basename (the key_path)) ''info'')]
                       (connect_finish env w)
                 | AuthenticationException msg \<Rightarrow>
                     then_do [Emit (Log ''[SSH] Key auth failed, falling back to password'' ''warning'')]
                       (password_phase env w)
                 | SSHException msg \<Rightarrow>
                     then_do [Emit (Log ''[SSH] Key auth failed, falling back to password'' ''warning'')]
                       (password_phase env w)
                 | FileNotFoundError msg \<Rightarrow>
                     then_do [Emit (Log ''[SSH] Key auth failed, falling back to password'' ''warning'')]
                       (password_phase env w)
                 | OtherException msg \<Rightarrow> connection_failed msg w)
         else password_phase env w)"

definition is_error_log :: "ssh_action \<Rightarrow> bool" where
  "is_error_log a = (case a of Emit (Log msg level) \<Rightarrow> level = ''error'' | _ \<Rightarrow> False)"

definition is_attempt :: "ssh_action \<Rightarrow> bool" where
  "is_attempt a = (case a of KeyAuth p pp \<Rightarrow> True | PasswordAuth pw \<Rightarrow> True | _ \<Rightarrow> False)"

subsection \<open>The installation loop\<close>

text \<open>
  \<open>STEP_PATTERN\<close> is \<open>Step\s+(\d+)\s+of\s+(\d+)\<close>, matched without regard to letter
  case. White space and digits are disjoint classes and each run of them is followed by a
  character of another class, so the greedy runs below are the only way to match, and the
  groups are the maximal runs of digits. \<open>search\<close> returns the leftmost match.
\<close>

fun match_lit_ci :: "string \<Rightarrow> string \<Rightarrow> string option" where
  \<comment> \<open>a literal of lower-case letters at the start of the input; the rest of the input\<close>
  "match_lit_ci [] s = Some s"
| "match_lit_ci (p # ps) [] = None"
| "match_lit_ci (p # ps) (c # cs) = (if lower_char c = p then match_lit_ci ps cs else None)"

definition many1 :: "(char \<Rightarrow> bool) \<Rightarrow> string \<Rightarrow> (string \<times> string) option" where
  \<comment> \<open>one or more characters of a class, as many as there are: the run and the rest\<close>
  "many1 P s = (if takeWhile P s = [] then None else Some (takeWhile P s, dropWhile P s))"

definition match_step :: "string \<Rightarrow> (string \<times> string) option" where
  \<comment> \<open>\<open>STEP_PATTERN\<close> at the start of the input: the two groups\<close>
  "match_step s =
     (case match_lit_ci ''step'' s of None \<Rightarrow> None | Some r1 \<Rightarrow>
      (case many1 isspace r1 of None \<Rightarrow> None | Some (sp1, r2) \<Rightarrow>
       (case many1 isdigit r2 of None \<Rightarrow> None | Some (g1, r3) \<Rightarrow>
        (case many1 isspace r3 of None \<Rightarrow> None | Some (sp2, r4) \<Rightarrow>
         (case match_lit_ci ''of'' r4 of None \<Rightarrow> None | Some r5 \<Rightarrow>
          (case many1 isspace r5 of None \<Rightarrow> None | Some (sp3, r6) \<Rightarrow>
           (case many1 isdigit r6 of None \<Rightarrow> None | Some (g2, r7) \<Rightarrow> Some (g1, g2))))))))"

fun step_search :: "string \<Rightarrow> (string \<times> string) option" where
  \<comment> \<open>\<open>STEP_PATTERN.search(line)\<close>\<close>
  "step_search [] = None"
| "step_search (c # cs) =
     (case match_step (c # cs) of Some g \<Rightarrow> Some g | None \<Rightarrow> step_search cs)"

definition is_linebreak :: "char \<Rightarrow> bool" where
  \<comment> \<open>the line boundaries of \<open>str.splitlines\<close> on ASCII: LF, VT, FF, CR, FS, GS, RS\<close>
  "is_linebreak c = (of_char c \<in> {10, 11, 12, 13, 28, 29, 30 :: nat})"

function splitlines_from :: "string \<Rightarrow> string \<Rightarrow> string list" where
  \<comment> \<open>\<open>text.splitlines()\<close>; the first argument is the line read so far; CR LF is one
      boundary, and there is no empty last line\<close>
  "splitlines_from cur [] = (if cur = [] then [] else [cur])"
| "splitlines_from cur (c # cs) =
     (if is_linebreak c
      then cur # splitlines_from []
             (if c = CHR 0x0D \<and> cs \<noteq> [] \<and> hd cs = CHR 0x0A then tl cs else cs)
      else splitlines_from (cur @ [c]) cs)"
  by pat_completeness auto
termination
  by (relation "measure (\<lambda>(cur, s). length s)") auto

definition splitlines :: "string \<Rightarrow> string list" where
  "splitlines s = splitlines_from [] s"

definition decode_utf8 :: "string \<Rightarrow> string" where
  \<comment> \<open>\<open>data.decode("utf-8", errors="ignore")\<close>: the channel output is ASCII text, which
      decodes to itself\<close>
  "decode_utf8 bs = bs"

definition nonblank :: "string \<Rightarrow> bool" where
  \<comment> \<open>the truth value of \<open>line.strip()\<close>\<close>
  "nonblank line = (py_strip line \<noteq> [])"

definition process_line :: "string \<Rightarrow> ssh_action list" where
  \<comment> \<open>the body of \<open>for line in text.splitlines()\<close> in the poll loop\<close>
  "process_line line =
     (if nonblank line
      then Emit (Log line ''info'') #
             (case step_search line of
                Some (g1, g2) \<Rightarrow>
                  [Emit (Progress (int (nat_of_digits g1)) (int (nat_of_digits g2))
                           (''Step '' @ g1 @ ''/'' @ g2))]
              | None \<Rightarrow> [])
      else [])"

definition process_chunk :: "string \<Rightarrow> ssh_action list" where
  "process_chunk data = concat (map process_line (splitlines (decode_utf8 data)))"

definition drain_line :: "string \<Rightarrow> ssh_action list" where
  \<comment> \<open>the body of the \<open>for\<close> loop that drains the remaining output: the line is logged\<close>
  "drain_line line = (if nonblank line then [Emit (Log line ''info'')] else [])"

definition drain_chunk :: "string \<Rightarrow> ssh_action list" where
  "drain_chunk data = concat (map drain_line (splitlines (decode_utf8 data)))"

definition has_prompt :: "string \<Rightarrow> bool" where
  \<comment> \<open>\<open>b"[sudo]" in lower_buff or b"password for" in lower_buff\<close>\<close>
  "has_prompt buff = (contains ''[sudo]'' (py_lower buff) \<or> contains ''password for'' (py_lower buff))"

definition check_prompt :: "string \<Rightarrow> bool \<times> string \<Rightarrow> ssh_action list \<times> (bool \<times> string)" where
  \<comment> \<open>the statement \<open>if not pw_sent\<close> of the poll loop, on the state \<open>(pw_sent, buff)\<close>\<close>
  "check_prompt password st =
     (case st of (pw_sent, buff) \<Rightarrow>
        if \<not> pw_sent \<and> has_prompt buff
        then ([ChanSend (password @ [CHR 0x0A]), Emit (Log ''[SUDO] Password sent'' ''info'')],
              (True, []))
        else ([], (pw_sent, buff)))"

text \<open>
  What the channel answers in one iteration of the poll loop: the chunk that \<open>recv\<close>
  returns if \<open>recv_ready\<close> holds, and whether the exit status is ready; when it is, also
  the chunks that the drain loop receives and the exit status. The loop returns in the
  iteration that sees the exit status; on a sequence of answers without one it has not
  returned, which is the result \<open>None\<close>.
\<close>

datatype chan_poll =
    Running "string option"
  | Exited "string option" "string list" int

definition receive :: "string option \<Rightarrow> bool \<times> string \<Rightarrow> ssh_action list \<times> (bool \<times> string)" where
  \<comment> \<open>the statement \<open>if chan.recv_ready()\<close> of the poll loop\<close>
  "receive data st =
     (case st of (pw_sent, buff) \<Rightarrow>
        (case data of
           None \<Rightarrow> ([], (pw_sent, buff))
         | Some d \<Rightarrow> (process_chunk d, (pw_sent, buff @ d))))"

definition iteration :: "string \<Rightarrow> string option \<Rightarrow> bool \<times> string \<Rightarrow> ssh_action list \<times> (bool \<times> string)" where
  \<comment> \<open>an iteration up to the test of the exit status\<close>
  "iteration password data st =
     (let (out1, st1) = receive data st; (out2, st2) = check_prompt password st1
      in (out1 @ out2, st2))"

definition finish_install :: "bool \<Rightarrow> string list \<Rightarrow> int \<Rightarrow> ssh_action list" where
  \<comment> \<open>the branch \<open>if chan.exit_status_ready()\<close>\<close>
  "finish_install reboot_after drained rc =
     concat (map drain_chunk drained) @
     [if rc = 0 then Emit (Log ''Installation completed successfully!'' ''success'')
      else Emit (Log (''Installation failed with exit code '' @ str_int rc) ''error'')] @
     (if reboot_after \<and> rc = 0 then [CallReboot] else [])"

fun install_loop ::
  "string \<Rightarrow> bool \<Rightarrow> bool \<times> string \<Rightarrow> chan_poll list \<Rightarrow> ssh_action list \<times> bool option" where
  "install_loop password reboot_after st [] = ([], None)"
| "install_loop password reboot_after st (Running data # polls) =
     (let (out, st') = iteration password data st;
          (out', res) = install_loop password reboot_after st' polls
      in (out @ out', res))"
| "install_loop password reboot_after st (Exited data drained rc # polls) =
     (let (out, st') = iteration password data st
      in (out @ finish_install reboot_after drained rc, Some (rc = 0)))"

definition escalation_password :: "ssh_config \<Rightarrow> string" where
  \<comment> \<open>\<open>self._config.sudo_password or self._config.password or ""\<close>\<close>
  "escalation_password cfg =
     (if truthy (cfg_sudo_password cfg) then the (cfg_sudo_password cfg)
      else if truthy (cfg_password cfg) then the (cfg_password cfg)
      else [])"

definition run_install :: "worker \<Rightarrow> bool \<Rightarrow> chan_poll list \<Rightarrow> ssh_action list \<times> bool option" where
  \<comment> \<open>\<open>run_install\<close> from the poll loop on; without a client \<open>_ensure_connected\<close> raises,
      which the handler turns into an error log and \<open>False\<close>. Building the command from
      \<open>params\<close> and opening the channel come before the loop and are not part of the model.\<close>
  "run_install w reboot_after polls =
     (if \<not> w_client w
      then ([Emit (Log ''Error during installation: SSH client is not connected'' ''error'')],
            Some False)
      else install_loop (escalation_password (w_config w)) reboot_after (False, []) polls)"

definition progress_of :: "ssh_action list \<Rightarrow> (int \<times> int) list" where
  \<comment> \<open>the progress events of a trace, in order: current step and total\<close>
  "progress_of acts =
     List.map_filter (\<lambda>a. case a of Emit (Progress n m txt) \<Rightarrow> Some (n, m) | _ \<Rightarrow> None) acts"

definition sends_of :: "ssh_action list \<Rightarrow> string list" where
  \<comment> \<open>what a trace writes to the channel, in order\<close>
  "sends_of acts = List.map_filter (\<lambda>a. case a of ChanSend s \<Rightarrow> Some s | _ \<Rightarrow> None) acts"

definition step_progress :: "string \<Rightarrow> (int \<times> int) option" where
  \<comment> \<open>the step and the total of a line that matches the marker\<close>
  "step_progress line =
     map_option (\<lambda>(g1, g2). (int (nat_of_digits g1), int (nat_of_digits g2))) (step_search line)"

fun loop_chunks :: "chan_poll list \<Rightarrow> string list" where
  \<comment> \<open>the chunks that \<open>recv\<close> returns to the poll loop itself, until it returns\<close>
  "loop_chunks [] = []"
| "loop_chunks (Running data # polls) = (case data of None \<Rightarrow> [] | Some d \<Rightarrow> [d]) @ loop_chunks polls"
| "loop_chunks (Exited data drained rc # polls) = (case data of None \<Rightarrow> [] | Some d \<Rightarrow> [d])"

fun loop_data :: "chan_poll list \<Rightarrow> string list" where
  \<comment> \<open>what each iteration of the poll loop appends to \<open>buff\<close>, until the loop returns\<close>
  "loop_data [] = []"
| "loop_data (Running data # polls) = (case data of None \<Rightarrow> [] | Some d \<Rightarrow> d) # loop_data polls"
| "loop_data (Exited data drained rc # polls) = [case data of None \<Rightarrow> [] | Some d \<Rightarrow> d]"

fun prompt_seen :: "string \<Rightarrow> string list \<Rightarrow> bool" where
  \<comment> \<open>the prompt is in the accumulated buffer at the prompt test of some iteration\<close>
  "prompt_seen buff [] = False"
| "prompt_seen buff (d # ds) = (has_prompt (buff @ d) \<or> prompt_seen (buff @ d) ds)"

definition falls_back :: "connect_outcome \<Rightarrow> bool" where
  \<comment> \<open>the exceptions that the \<open>except\<close> clause of the key attempt catches\<close>
  "falls_back r =
     (case r of
        AuthenticationException msg \<Rightarrow> True
      | SSHException msg \<Rightarrow> True
      | FileNotFoundError msg \<Rightarrow> True
      | _ \<Rightarrow> False)"

definition attempts_of :: "ssh_action list \<Rightarrow> ssh_action list" where
  \<comment> \<open>the authentication attempts of a trace, in order\<close>
  "attempts_of acts = filter is_attempt acts"

definition demo_env :: ssh_env where
  \<comment> \<open>a host whose only key file is \<open>id_rsa\<close>, a server that refuses the key and accepts the
      password\<close>
  "demo_env =
     \<lparr>expand = (\<lambda>p. p), isfile = (\<lambda>p. p = ''/home/u/.ssh/id_rsa''), home = ''/home/u'',
      key_connect = (\<lambda>p. AuthenticationException ''key refused''),
      password_connect = Connected, transport = Transport\<rparr>"

definition demo_worker :: "string option \<Rightarrow> string option \<Rightarrow> worker" where
  "demo_worker key pw =
     \<lparr>w_config = \<lparr>cfg_host = ''10.0.0.5'', cfg_port = 22, cfg_user = ''bjorn'', cfg_password = pw,
                  cfg_key_path = key, cfg_sudo_password = None\<rparr>,
      w_client = False, w_connected = False\<rparr>"

definition raised :: "connect_outcome \<Rightarrow> string option" where
  \<comment> \<open>the message of the exception that \<open>client.connect\<close> raises, if it raises\<close>
  "raised r =
     (case r of
        Connected \<Rightarrow> None
      | AuthenticationException msg \<Rightarrow> Some msg
      | SSHException msg \<Rightarrow> Some msg
      | FileNotFoundError msg \<Rightarrow> Some msg
      | OtherException msg \<Rightarrow> Some msg)"

definition attempt_succeeds :: "ssh_env \<Rightarrow> worker \<Rightarrow> bool" where
  \<comment> \<open>the server accepts the key, or the key attempt is not made or falls back and the
      server accepts the configured password\<close>
  "attempt_succeeds env w =
     (let key_path = resolve_key_path env (w_config w)
      in (truthy key_path \<and> key_connect env (the key_path) = Connected) \<or>
         ((\<not> truthy key_path \<or> falls_back (key_connect env (the key_path))) \<and>
          truthy (cfg_password (w_config w)) \<and> password_connect env = Connected))"

definition refusing_env :: ssh_env where
  \<comment> \<open>as \<open>demo_env\<close>, with a server that refuses the password too\<close>
  "refusing_env = demo_env\<lparr>password_connect := AuthenticationException ''password refused''\<rparr>"

definition step_marker :: "string \<Rightarrow> string \<Rightarrow> string \<Rightarrow> bool" where
  \<comment> \<open>the input starts with a match of \<open>STEP_PATTERN\<close> whose groups are \<open>g1\<close> and \<open>g2\<close>\<close>
  "step_marker s g1 g2 =
     (\<exists>w sp1 sp2 w' sp3 rest.
        s = w @ sp1 @ g1 @ sp2 @ w' @ sp3 @ g2 @ rest \<and>
        py_lower w = ''step'' \<and> py_lower w' = ''of'' \<and>
        sp1 \<noteq> [] \<and> (\<forall>c\<in>set sp1. isspace c) \<and>
        sp2 \<noteq> [] \<and> (\<forall>c\<in>set sp2. isspace c) \<and>
        sp3 \<noteq> [] \<and> (\<forall>c\<in>set sp3. isspace c) \<and>
        g1 \<noteq> [] \<and> (\<forall>c\<in>set g1. isdigit c) \<and>
        g2 \<noteq> [] \<and> (\<forall>c\<in>set g2. isdigit c))"

section \<open>Properties of the string functions and of the index search\<close>

declare str_nat.simps [simp del] first_free.simps [simp del]

lemma first_free_spec:
  "n \<le> first_free used n \<and> first_free used n \<notin> set used \<and>
   (\<forall>k. n \<le> k \<and> k < first_free used n \<longrightarrow> k \<in> set used)"
proof (induction used n rule: first_free.induct)
  case (1 used n)
  show ?case
  proof (cases "n \<in> set used")
    case True
    have eq: "first_free used n = first_free used (n + 1)"
      using True by (subst first_free.simps) simp
    have ih: "n + 1 \<le> first_free used (n + 1) \<and> first_free used (n + 1) \<notin> set used \<and>
      (\<forall>k. n + 1 \<le> k \<and> k < first_free used (n + 1) \<longrightarrow> k \<in> set used)"
      using "1.IH" [OF True] .
    have "\<forall>k. n \<le> k \<and> k < first_free used (n + 1) \<longrightarrow> k \<in> set used"
    proof (intro allI impI)
      fix k assume k: "n \<le> k \<and> k < first_free used (n + 1)"
      show "k \<in> set used"
      proof (cases "k = n")
        case True
        then show ?thesis using \<open>n \<in> set used\<close> by simp
      next
        case False
        then have "n + 1 \<le> k" using k by simp
        then show ?thesis using ih k by blast
      qed
    qed
    then show ?thesis
      unfolding eq using ih by auto
  next
    case False
    then have "first_free used n = n"
      by (subst first_free.simps) simp
    then show ?thesis using False by auto
  qed
qed

lemma note_alias_set:
  "set (note_alias used alias) = set used \<union> set_option (alias_number alias)"
  by (auto simp: note_alias_def try_add_def last_item_def alias_number_def split: sum.splits)

lemma foldl_note_alias_set:
  "set (foldl note_alias acc as) = set acc \<union> {v. \<exists>a\<in>set as. alias_number a = Some v}"
  by (induction as arbitrary: acc) (auto simp: note_alias_set)

lemma collect_used_set:
  "set (collect_used as) = {v. \<exists>a\<in>set as. alias_number a = Some v}"
  by (simp add: collect_used_def foldl_note_alias_set)

lemma str_nat_nonempty: "str_nat n \<noteq> []"
  by (induction n rule: str_nat.induct) (subst str_nat.simps, simp)

lemma isdigit_digit_char: "d < 10 \<Longrightarrow> isdigit (digit_char d)"
  by (simp add: isdigit_def digit_char_def)

lemma digit_val_digit_char: "d < 10 \<Longrightarrow> digit_val (digit_char d) = d"
  by (simp add: digit_val_def digit_char_def)

lemma str_nat_digits: "c \<in> set (str_nat n) \<Longrightarrow> isdigit c"
proof (induction n rule: str_nat.induct)
  case (1 n)
  show ?case
  proof (cases "n < 10")
    case True
    then show ?thesis using "1.prems" by (subst (asm) str_nat.simps) (simp add: isdigit_digit_char)
  next
    case False
    then have "c \<in> set (str_nat (n div 10)) \<or> c = digit_char (n mod 10)"
      using "1.prems" by (subst (asm) str_nat.simps) auto
    then show ?thesis
      using "1.IH" False by (auto simp: isdigit_digit_char)
  qed
qed

lemma nat_of_digits_snoc: "nat_of_digits (ds @ [c]) = 10 * nat_of_digits ds + digit_val c"
  by (simp add: nat_of_digits_def)

lemma nat_of_digits_str_nat: "nat_of_digits (str_nat n) = n"
proof (induction n rule: str_nat.induct)
  case (1 n)
  show ?case
  proof (cases "n < 10")
    case True
    then show ?thesis by (subst str_nat.simps) (simp add: nat_of_digits_def digit_val_digit_char)
  next
    case False
    then have "str_nat n = str_nat (n div 10) @ [digit_char (n mod 10)]"
      by (subst str_nat.simps) simp
    then show ?thesis
      using "1.IH" False by (simp add: nat_of_digits_snoc digit_val_digit_char)
  qed
qed

lemma digits_us_all_digits: "ds \<noteq> [] \<Longrightarrow> \<forall>c\<in>set ds. isdigit c \<Longrightarrow> digits_us ds"
proof (induction ds rule: digits_us.induct)
  case (3 c d cs)
  have "d \<noteq> CHR ''_''"
    using "3.prems" by (auto simp: isdigit_def)
  then show ?case using 3 by simp
qed simp_all

lemma isdigit_not_space: "isdigit c \<Longrightarrow> \<not> isspace c"
  by (auto simp: isdigit_def isspace_def)

lemma isdigit_lower: "isdigit c \<Longrightarrow> lower_char c = c"
  by (auto simp: isdigit_def lower_char_def)

lemma py_strip_no_space: "\<forall>c\<in>set s. \<not> isspace c \<Longrightarrow> py_strip s = s"
proof -
  assume ns: "\<forall>c\<in>set s. \<not> isspace c"
  have front: "dropWhile isspace s = s"
    using ns by (cases s) auto
  have rear: "dropWhile isspace (rev s) = rev s"
    using ns by (cases s rule: rev_cases) auto
  show ?thesis
    by (simp add: py_strip_def front rear)
qed

lemma split_ws_no_space:
  "\<forall>c\<in>set s. \<not> isspace c \<Longrightarrow> cur @ s \<noteq> [] \<Longrightarrow> split_ws cur s = [cur @ s]"
  by (induction s arbitrary: cur) auto

lemma py_split_bjorn:
  assumes "ds \<noteq> []" "\<forall>c\<in>set ds. isdigit c"
  shows "py_split (''Bjorn '' @ ds) = [''Bjorn'', ds]"
proof -
  have "split_ws [] ds = [ds]"
    using split_ws_no_space [of ds "[]"] assms by (simp add: isdigit_not_space)
  then show ?thesis
    by (simp add: py_split_def isspace_def)
qed

lemma py_int_digits:
  assumes "ds \<noteq> []" "\<forall>c\<in>set ds. isdigit c"
  shows "py_int ds = Inr (int (nat_of_digits ds))"
proof -
  have strip: "py_strip ds = ds"
    using assms by (simp add: py_strip_no_space isdigit_not_space)
  have hd: "hd ds \<noteq> CHR ''-''" "hd ds \<noteq> CHR ''+''"
    using assms by (cases ds; auto simp: isdigit_def)+
  have filt: "filter (\<lambda>c. c \<noteq> CHR ''_'') ds = ds"
    using assms by (auto simp: filter_id_conv isdigit_def)
  show ?thesis
    using digits_us_all_digits [OF assms] hd
    by (simp add: py_int_def strip filt Let_def)
qed

lemma alias_number_bjorn:
  "0 \<le> n \<Longrightarrow> alias_number (''Bjorn '' @ str_int n) = Some n"
proof -
  assume n: "0 \<le> n"
  let ?ds = "str_nat (nat n)"
  have ds: "?ds \<noteq> []" "\<forall>c\<in>set ?ds. isdigit c"
    by (simp_all add: str_nat_nonempty str_nat_digits)
  have sp: "py_split (''Bjorn '' @ ?ds) = [''Bjorn'', ?ds]"
    using py_split_bjorn [OF ds] .
  have low: "py_lower ''Bjorn '' = ''bjorn ''"
    by code_simp
  have "py_lower (''Bjorn '' @ ?ds) = py_lower ''Bjorn '' @ py_lower ?ds"
    unfolding py_lower_def by (rule map_append)
  then have pre: "startswith (py_lower (''Bjorn '' @ ?ds)) ''bjorn ''"
    unfolding low by (simp add: startswith_def)
  have "py_int ?ds = Inr n"
    using py_int_digits [OF ds] n by (simp add: nat_of_digits_str_nat)
  then show ?thesis
    using n sp pre by (simp add: alias_number_def str_int_def)
qed

section \<open>Properties of the alias manager\<close>

lemma set_map_filter: "set (List.map_filter f xs) = {v. \<exists>a\<in>set xs. f a = Some v}"
  by (induction xs) (auto simp: map_filter_simps split: option.splits)

lemma used_numbers_collect: "set (collect_used (map snd m)) = used_numbers m"
  by (simp add: collect_used_set used_numbers_def set_map_filter)

lemma next_index_spec:
  "1 \<le> next_index m \<and> next_index m \<notin> used_numbers m \<and>
   (\<forall>k. 1 \<le> k \<and> k < next_index m \<longrightarrow> k \<in> used_numbers m)"
  using first_free_spec [of 1 "collect_used (map snd m)"]
  by (simp add: next_index_def used_numbers_collect)

lemma update_fresh_key: "k \<notin> fst ` set m \<Longrightarrow> AList.update k v m = m @ [(k, v)]"
  by (induction m) auto

lemma new_alias_unused: "''Bjorn '' @ str_int (next_index m) \<notin> snd ` set m"
proof
  define a where "a = ''Bjorn '' @ str_int (next_index m)"
  assume "''Bjorn '' @ str_int (next_index m) \<in> snd ` set m"
  then have mem: "a \<in> set (map snd m)"
    unfolding a_def by simp
  have num: "alias_number a = Some (next_index m)"
    unfolding a_def using next_index_spec [of m] by (intro alias_number_bjorn) simp
  have "next_index m \<in> used_numbers m"
    unfolding used_numbers_def set_map_filter using mem num by blast
  then show False
    using next_index_spec [of m] by simp
qed

lemma alias_for_inv: "alias_inv m \<Longrightarrow> alias_inv (snd (alias_for m k))"
proof (cases "map_of m k")
  case None
  assume inv: "alias_inv m"
  have k: "k \<notin> fst ` set m"
    using None by (simp add: map_of_eq_None_iff)
  show ?thesis
    using inv k new_alias_unused [of m]
    by (simp add: alias_for_def None Let_def update_fresh_key alias_inv_def)
next
  case (Some a)
  assume "alias_inv m"
  then show ?thesis by (simp add: alias_for_def Some)
qed

lemma alias_for_keeps:
  "map_of m k = Some b \<Longrightarrow> map_of (snd (alias_for m k')) k = Some b"
  by (cases "map_of m k'") (auto simp: alias_for_def Let_def update_conv')

lemma alias_calls_inv: "alias_inv m \<Longrightarrow> alias_inv (snd (alias_calls m ks))"
proof (induction ks arbitrary: m)
  case Nil
  then show ?case by simp
next
  case (Cons k ks)
  have "alias_inv (snd (alias_for m k))"
    using Cons.prems by (rule alias_for_inv)
  then have "alias_inv (snd (alias_calls (snd (alias_for m k)) ks))"
    by (rule Cons.IH)
  then show ?case
    by (simp add: split_def Let_def)
qed

lemma alias_calls_keeps:
  "map_of m k = Some b \<Longrightarrow> map_of (snd (alias_calls m ks)) k = Some b"
proof (induction ks arbitrary: m)
  case Nil
  then show ?case by simp
next
  case (Cons k' ks)
  have "map_of (snd (alias_for m k')) k = Some b"
    using Cons.prems by (rule alias_for_keeps)
  then have "map_of (snd (alias_calls (snd (alias_for m k')) ks)) k = Some b"
    by (rule Cons.IH)
  then show ?case
    by (simp add: split_def Let_def)
qed

lemma alias_inv_inj:
  assumes "alias_inv m" "map_of m k1 = Some a" "map_of m k2 = Some a"
  shows "k1 = k2"
proof -
  have "(k1, a) \<in> set m" "(k2, a) \<in> set m"
    using assms by (auto dest: map_of_SomeD)
  moreover have "inj_on snd (set m)"
    using assms(1) by (simp add: alias_inv_def distinct_map)
  ultimately show ?thesis
    using inj_onD [of snd "set m" "(k1, a)" "(k2, a)"] by simp
qed

lemma used_numbers_range:
  assumes "map snd m = map bjorn_name [1..<Suc j]"
  shows "used_numbers m = int ` {1..j}"
proof -
  have "alias_number (bjorn_name i) = Some (int i)" for i
    unfolding bjorn_name_def by (rule alias_number_bjorn) simp
  then have "List.map_filter alias_number (map bjorn_name xs) = map int xs" for xs
    by (induction xs) (simp_all add: map_filter_simps)
  then show ?thesis
    unfolding used_numbers_def assms by (auto simp: image_iff)
qed

lemma next_index_range:
  assumes "map snd m = map bjorn_name [1..<Suc j]"
  shows "next_index m = int (Suc j)"
proof -
  let ?r = "next_index m"
  have u: "used_numbers m = int ` {1..j}"
    using assms by (rule used_numbers_range)
  have r: "1 \<le> ?r" "?r \<notin> int ` {1..j}" "\<forall>k. 1 \<le> k \<and> k < ?r \<longrightarrow> k \<in> int ` {1..j}"
    using next_index_spec [of m] unfolding u by auto
  have "\<not> ?r \<le> int j"
  proof
    assume "?r \<le> int j"
    then have "?r = int (nat ?r)" "nat ?r \<in> {1..j}"
      using r(1) by auto
    then show False using r(2) by (metis image_eqI)
  qed
  moreover have "\<not> int j + 1 < ?r"
  proof
    assume "int j + 1 < ?r"
    then have "int j + 1 \<in> int ` {1..j}"
      using r(3) by simp
    then show False by auto
  qed
  ultimately show ?thesis by simp
qed

lemma alias_calls_fresh:
  assumes "distinct ks" "set ks \<inter> fst ` set m = {}" "map snd m = map bjorn_name [1..<Suc j]"
  shows "fst (alias_calls m ks) = map bjorn_name [Suc j..<Suc j + length ks]"
  using assms
proof (induction ks arbitrary: m j)
  case Nil
  then show ?case by simp
next
  case (Cons k ks)
  have k: "k \<notin> fst ` set m" "map_of m k = None"
    using Cons.prems(2) by (auto simp: map_of_eq_None_iff)
  have idx: "next_index m = int (Suc j)"
    using Cons.prems(3) by (rule next_index_range)
  let ?m' = "m @ [(k, bjorn_name (Suc j))]"
  have step: "alias_for m k = (bjorn_name (Suc j), ?m')"
    using k by (simp add: alias_for_def Let_def idx bjorn_name_def update_fresh_key)
  have "fst (alias_calls ?m' ks) = map bjorn_name [Suc (Suc j)..<Suc (Suc j) + length ks]"
  proof (rule Cons.IH)
    show "distinct ks" using Cons.prems(1) by simp
    show "set ks \<inter> fst ` set ?m' = {}" using Cons.prems(1,2) by auto
    show "map snd ?m' = map bjorn_name [1..<Suc (Suc j)]" using Cons.prems(3) by simp
  qed
  moreover have "[Suc j..<Suc j + length (k # ks)] = Suc j # [Suc (Suc j)..<Suc (Suc j) + length ks]"
    by (simp add: upt_conv_Cons del: upt_Suc)
  ultimately show ?case
    by (simp add: step split_def Let_def del: upt_Suc)
qed

subsection \<open>Allocation of the next index\<close>

text \<open>
  On a map whose values are strings, malformed aliases included (an alias that does not
  start with the \<open>Bjorn\<close> prefix, or whose last token is no integer), allocation
  returns: a malformed alias leaves the set of used numbers as it was, and the index
  allocated next is the lowest positive integer that is not the number of a well-formed
  alias of the map.
\<close>

theorem next_index_lowest_unused:
  "1 \<le> next_index m \<and> next_index m \<notin> used_numbers m \<and>
   (\<forall>k. 1 \<le> k \<and> k < next_index m \<longrightarrow> k \<in> used_numbers m) \<and>
   (alias_number a = None \<longrightarrow> note_alias used a = used) \<and>
   (map_of m d = None \<longrightarrow> fst (alias_for m d) = ''Bjorn '' @ str_int (next_index m))"
proof -
  have skip: "alias_number a = None \<longrightarrow> note_alias used a = used"
    by (auto simp: alias_number_def note_alias_def try_add_def last_item_def split: sum.splits)
  have alloc: "map_of m d = None \<longrightarrow> fst (alias_for m d) = ''Bjorn '' @ str_int (next_index m)"
    by (simp add: alias_for_def Let_def)
  show ?thesis
    using next_index_spec [of m] skip alloc by blast
qed

theorem next_index_lowest_unused_witness:
  "next_index [(''a'', ''bjorn 2''), (''b'', ''Bjorn  1 ''), (''c'', ''Dev 3''), (''d'', ''Bjorn x'')] = 3 \<and>
   2 \<in> used_numbers [(''a'', ''bjorn 2''), (''b'', ''Bjorn  1 ''), (''c'', ''Dev 3''), (''d'', ''Bjorn x'')] \<and>
   3 \<notin> used_numbers [(''a'', ''bjorn 2''), (''b'', ''Bjorn  1 ''), (''c'', ''Dev 3''), (''d'', ''Bjorn x'')] \<and>
   alias_number ''Bjorn x'' = None \<and> note_alias [1] ''Bjorn x'' = [1] \<and>
   fst (alias_for [(''a'', ''bjorn 2''), (''b'', ''Bjorn  1 ''), (''c'', ''Dev 3''), (''d'', ''Bjorn x'')] ''e'')
     = ''Bjorn 3''"
proof -
  let ?m = "[(''a'', ''bjorn 2''), (''b'', ''Bjorn  1 ''), (''c'', ''Dev 3''), (''d'', ''Bjorn x'')]"
  have idx: "next_index ?m = 3"
    by code_simp
  have bad: "alias_number ''Bjorn x'' = None"
    by code_simp
  have new: "map_of ?m ''e'' = None"
    by simp
  have three: "str_int 3 = ''3''"
    by code_simp
  have bound: "(1::int) \<le> 2 \<and> (2::int) < 3"
    by simp
  show ?thesis
    using next_index_lowest_unused [of ?m "''Bjorn x''" "[1]" "''e''"] bad new bound
    unfolding idx three by auto
qed

subsection \<open>The alias map is injective\<close>

text \<open>
  Claim C8. The alias map of a manager that starts empty, as the discovery engine creates
  it, is injective after any sequence of \<open>alias_for\<close> calls: two keys bound to the same
  alias are the same key. A binding once made is kept by every later call, so the alias of
  a key is never handed to another key while the key is in the map.
\<close>

theorem alias_map_injective:
  "(map_of (snd (alias_calls (snd (alias_calls [] ks)) ks')) k1 = Some a \<and>
    map_of (snd (alias_calls (snd (alias_calls [] ks)) ks')) k2 = Some a \<longrightarrow> k1 = k2) \<and>
   (map_of (snd (alias_calls [] ks)) k = Some b \<longrightarrow>
    map_of (snd (alias_calls (snd (alias_calls [] ks)) ks')) k = Some b)"
proof -
  have "alias_inv []"
    by (simp add: alias_inv_def)
  then have "alias_inv (snd (alias_calls (snd (alias_calls [] ks)) ks'))"
    by (intro alias_calls_inv)
  then show ?thesis
    using alias_inv_inj alias_calls_keeps by blast
qed

theorem alias_map_injective_witness:
  "map_of (snd (alias_calls (snd (alias_calls [] [''a'', ''b''])) [''c'', ''a''])) ''b'' = Some ''Bjorn 2'' \<and>
   map_of (snd (alias_calls [] [''a'', ''b''])) ''a'' = Some ''Bjorn 1'' \<and>
   map_of (snd (alias_calls (snd (alias_calls [] [''a'', ''b''])) [''c'', ''a''])) ''a'' = Some ''Bjorn 1''"
proof -
  have later: "map_of (snd (alias_calls (snd (alias_calls [] [''a'', ''b''])) [''c'', ''a''])) ''b''
      = Some ''Bjorn 2''"
    by code_simp
  have first: "map_of (snd (alias_calls [] [''a'', ''b''])) ''a'' = Some ''Bjorn 1''"
    by code_simp
  show ?thesis
    using alias_map_injective [of "[''a'', ''b'']" "[''c'', ''a'']" "''b''" "''Bjorn 2''" "''b''"
        "''a''" "''Bjorn 1''"] later first
    by simp
qed

subsection \<open>Maps loaded from the persistence file\<close>

text \<open>
  On a dict of strings the methods on a loaded map are the methods on the association
  list: neither raises, and they return the same alias and the same map.
\<close>

lemma collect_loaded_strings:
  "collect_loaded (map JStr as) used = Inr (foldl note_alias used as)"
  by (induction as arbitrary: used) (simp_all add: note_loaded_def)

lemma collect_loaded_values:
  "collect_loaded (map snd (map (\<lambda>(k, a). (k, JStr a)) m)) used = Inr (foldl note_alias used (map snd m))"
  by (induction m arbitrary: used) (auto simp: note_loaded_def)

lemma next_index_loaded_strings: "next_index_loaded (strings m) = Inr (next_index m)"
  using collect_loaded_values [of m "[]"]
  by (simp add: next_index_loaded_def strings_def next_index_def collect_used_def)

lemma map_of_strings:
  "map_of (map (\<lambda>(k, a). (k, JStr a)) m) d = map_option JStr (map_of m d)"
  by (induction m) auto

lemma update_strings:
  "AList.update d (JStr a) (map (\<lambda>(k, a). (k, JStr a)) m) = map (\<lambda>(k, a). (k, JStr a)) (AList.update d a m)"
  by (induction m) auto

lemma alias_for_loaded_strings:
  "alias_for_loaded (strings m) d = Inr (JStr (fst (alias_for m d)), strings (snd (alias_for m d)))"
proof (cases "map_of m d")
  case None
  then show ?thesis
    using next_index_loaded_strings [of m]
    by (simp add: alias_for_loaded_def member_loaded_def store_loaded_def alias_for_def Let_def
        strings_def map_of_strings update_strings)
next
  case (Some a)
  then show ?thesis
    by (simp add: alias_for_loaded_def member_loaded_def item_loaded_def alias_for_def
        strings_def map_of_strings)
qed

text \<open>
  Claim C10 at a failing input. The persistence file holds \<open>{"a": 5}\<close>, which
  \<open>_load\<close> keeps as the map; \<open>alias_for("b")\<close> then raises \<open>AttributeError\<close>, from
  \<open>alias.lower()\<close> on the value 5, which is outside the \<open>try\<close> of \<open>_next_index\<close>.
  The claim says that allocation never raises, whatever the map holds.
\<close>

theorem non_string_alias_raises:
  "alias_for_loaded (load (Some (JObj [(''a'', JNum 5)]))) ''b'' = Inl AttributeError"
  by code_simp

section \<open>Properties of the discovery engine\<close>

lemma emit_device_ignored: "s_ip s \<in> ignored_ips st \<Longrightarrow> emit_device s st = ([], st)"
  by (simp add: emit_device_def)

lemma sighting_key_None:
  "sighting_key st s = None \<Longrightarrow> s_ip s \<notin> ignored_ips st \<Longrightarrow>
   emit_device s st = ([], st\<lparr>seen_ips := List.insert (s_ip s) (seen_ips st)\<rparr>)"
  by (simp add: sighting_key_def emit_device_def Let_def split: if_splits)

lemma emit_device_accepted:
  assumes "sighting_key st s = Some k"
  shows "emit_device s st =
     (if known st k (s_ip s) then []
      else notify (has_callback st)
             (DeviceFound (fst (alias_for (alias_mgr st) k) @ '' ('' @ ip_tag (s_ip s) @ '')'')
                (s_ip s) (webapp s)),
      st\<lparr>seen_ips := List.insert (s_ip s) (seen_ips st),
         alias_mgr := snd (alias_for (alias_mgr st) k),
         registry := AList.update k
            (seen_rec (map_of (registry st) k) (fst (alias_for (alias_mgr st) k)) (s_ip s)
               (seen_at s))
            (registry st)\<rparr>)"
proof -
  have ni: "s_ip s \<notin> ignored_ips st"
    and ok: "\<not> (strict_bjorn_only st \<and>
               \<not> is_bjorn_hostname (normalize_host (py_or (s_label s) (rdns_first s))))"
    and k: "k = device_key (normalize_host (py_or (s_label s) (rdns_first s))) (s_ip s) (rdns_second s)"
    using assms by (auto simp: sighting_key_def Let_def split: if_splits)
  show ?thesis
  proof (cases "map_of (registry st) k")
    case None
    then show ?thesis
      using ni ok unfolding k
      by (auto simp: emit_device_def Let_def split_def known_def seen_rec_def)
  next
    case (Some r)
    then show ?thesis
      using ni ok unfolding k
      by (auto simp: emit_device_def Let_def split_def known_def seen_rec_def)
  qed
qed

lemma set_update_cases:
  "(k', v') \<in> set (AList.update k v al) \<Longrightarrow> (k', v') = (k, v) \<or> (k', v') \<in> set al"
  by (induction al) (auto split: if_splits)

lemma set_delete_subset: "set (AList.delete k al) \<subseteq> set al"
  by (auto simp: AList.delete_eq)

lemma set_pop_all_subset: "set (pop_all ks reg) \<subseteq> set reg"
proof (induction ks arbitrary: reg)
  case Nil
  then show ?case by simp
next
  case (Cons k ks)
  have "set (pop_all ks (AList.delete k reg)) \<subseteq> set (AList.delete k reg)"
    by (rule Cons.IH)
  then show ?case
    using set_delete_subset [of k reg] by auto
qed

lemma map_of_pop_all:
  "map_of (pop_all ks reg) k = (if k \<in> set ks then None else map_of reg k)"
  by (induction ks arbitrary: reg) (auto simp: delete_conv')

lemma distinct_pop_all: "distinct (map fst reg) \<Longrightarrow> distinct (map fst (pop_all ks reg))"
  by (induction ks arbitrary: reg) (auto simp: distinct_delete)

lemma seen_rec_ips:
  "set (d_ips (seen_rec found base ip now)) = insert ip (case found of None \<Rightarrow> {} | Some r \<Rightarrow> set (d_ips r))"
  by (auto simp: seen_rec_def split: option.splits)

lemma seen_rec_last_seen: "d_last_seen (seen_rec found base ip now) = now"
  by (simp add: seen_rec_def split: option.splits)

lemma seen_rec_distinct:
  "(\<And>r. found = Some r \<Longrightarrow> distinct (d_ips r)) \<Longrightarrow> distinct (d_ips (seen_rec found base ip now))"
  by (auto simp: seen_rec_def split: option.splits)

subsection \<open>Ignored addresses\<close>

lemma emit_device_clean:
  assumes "clean a st"
  shows "clean a (snd (emit_device s st)) \<and> (\<forall>e\<in>set (fst (emit_device s st)). event_address e \<noteq> Some a)"
proof (cases "s_ip s \<in> ignored_ips st")
  case True
  then show ?thesis
    using assms by (simp add: emit_device_ignored)
next
  case False
  then have ne: "s_ip s \<noteq> a"
    using assms by (auto simp: clean_def)
  show ?thesis
  proof (cases "sighting_key st s")
    case None
    then show ?thesis
      using assms False ne by (auto simp: sighting_key_None clean_def)
  next
    case (Some k)
    have old: "\<And>r. map_of (registry st) k = Some r \<Longrightarrow> a \<notin> set (d_ips r)"
      using assms by (auto simp: clean_def dest!: map_of_SomeD)
    have new: "a \<notin> set (d_ips (seen_rec (map_of (registry st) k) b (s_ip s) t))" for b t
      using ne old by (auto simp: seen_rec_ips split: option.splits)
    show ?thesis
      using assms ne new
      by (auto simp: emit_device_accepted [OF Some] clean_def notify_def
          dest!: set_update_cases)
  qed
qed

lemma sweep_items_events:
  "p \<in> set (sweep_items cb now timeout reg) \<Longrightarrow> e \<in> set (snd p) \<Longrightarrow>
   \<exists>r ip. (fst p, r) \<in> set reg \<and> ip \<in> set (d_ips r) \<and> e = DeviceGone ip"
proof (induction reg)
  case Nil
  then show ?case by simp
next
  case (Cons entry reg)
  obtain key r where entry: "entry = (key, r)"
    by (cases entry)
  show ?case
  proof (cases "p \<in> set (sweep_items cb now timeout reg)")
    case True
    then show ?thesis
      using Cons.IH Cons.prems(2) by auto
  next
    case False
    then have "p = (key, concat (map (\<lambda>ip. notify cb (DeviceGone ip)) (d_ips r)))"
      using Cons.prems(1) unfolding entry by (simp split: if_splits)
    then show ?thesis
      using Cons.prems(2) unfolding entry by (auto simp: notify_def split: if_splits)
  qed
qed

lemma sweeper_pass_clean:
  assumes "clean a st"
  shows "clean a (snd (sweeper_pass now st)) \<and> (\<forall>e\<in>set (fst (sweeper_pass now st)). event_address e \<noteq> Some a)"
proof -
  have "event_address e \<noteq> Some a" if mem: "e \<in> set (fst (sweeper_pass now st))" for e
  proof -
    obtain p where "p \<in> set (sweep_items (has_callback st) now (stale_timeout st) (registry st))"
      "e \<in> set (snd p)"
      using mem by (auto simp: sweeper_pass_def Let_def)
    then obtain r ip where "(fst p, r) \<in> set (registry st)" "ip \<in> set (d_ips r)" "e = DeviceGone ip"
      using sweep_items_events by blast
    then show ?thesis
      using assms by (auto simp: clean_def)
  qed
  moreover have "clean a (snd (sweeper_pass now st))"
    using assms set_pop_all_subset by (fastforce simp: clean_def sweeper_pass_def Let_def)
  ultimately show ?thesis by blast
qed

lemma port8000_poll_clean:
  "clean a st \<Longrightarrow> \<forall>e\<in>set (port8000_poll completed st). event_address e \<noteq> Some a"
  by (auto simp: port8000_poll_def clean_def notify_def split: if_splits)

lemma reset_clean:
  "clean a st \<Longrightarrow> clean a (snd (reset logs st)) \<and> (\<forall>e\<in>set (fst (reset logs st)). event_address e \<noteq> Some a)"
  by (auto simp: reset_def clean_def notify_def split: if_splits)

lemma step_clean:
  "clean a st \<Longrightarrow> clean a (snd (step act st)) \<and> (\<forall>e\<in>set (fst (step act st)). event_address e \<noteq> Some a)"
  by (cases act) (simp_all add: emit_device_clean sweeper_pass_clean port8000_poll_clean reset_clean)

lemma run_clean:
  "clean a st \<Longrightarrow> clean a (snd (run acts st)) \<and> (\<forall>e\<in>set (fst (run acts st)). event_address e \<noteq> Some a)"
proof (induction acts arbitrary: st)
  case Nil
  then show ?case by simp
next
  case (Cons act acts)
  have one: "clean a (snd (step act st))" "\<forall>e\<in>set (fst (step act st)). event_address e \<noteq> Some a"
    using step_clean [OF Cons.prems] by simp_all
  have rest: "clean a (snd (run acts (snd (step act st))))"
    "\<forall>e\<in>set (fst (run acts (snd (step act st)))). event_address e \<noteq> Some a"
    using Cons.IH [OF one(1)] by simp_all
  show ?case
    using one rest by (auto simp: split_def Let_def)
qed

text \<open>
  Claim C7. No event is ever emitted for an address on the ignore list (the gateways, the
  common router addresses, the host's own addresses), whatever the probes answer: in every
  run of the engine from its initial state no \<open>device_found\<close>, \<open>device_gone\<close> or
  \<open>webapp_status\<close> event carries the address, and the address is neither in the set of
  seen addresses nor in the registry, because \<open>_emit_device\<close> returns for it before it
  records anything.
\<close>

theorem ignored_address_silent:
  assumes "a \<in> build_ignored_ips gateways own"
  shows "(\<forall>e\<in>set (fst (run acts (init_discovery cb strict gateways own))). event_address e \<noteq> Some a) \<and>
         a \<notin> set (seen_ips (snd (run acts (init_discovery cb strict gateways own)))) \<and>
         (\<forall>(key, r)\<in>set (registry (snd (run acts (init_discovery cb strict gateways own)))).
             a \<notin> set (d_ips r)) \<and>
         (\<forall>st s. s_ip s \<in> ignored_ips st \<longrightarrow> emit_device s st = ([], st))"
proof -
  have "clean a (init_discovery cb strict gateways own)"
    using assms by (simp add: clean_def init_discovery_def)
  then show ?thesis
    using run_clean [of a "init_discovery cb strict gateways own" acts] emit_device_ignored
    by (simp add: clean_def)
qed

subsection \<open>Repeated sightings\<close>

lemma emit_device_config:
  shows "strict_bjorn_only (snd (emit_device s st)) = strict_bjorn_only st"
    and "ignored_ips (snd (emit_device s st)) = ignored_ips st"
    and "has_callback (snd (emit_device s st)) = has_callback st"
    and "stale_timeout (snd (emit_device s st)) = stale_timeout st"
proof -
  have "strict_bjorn_only (snd (emit_device s st)) = strict_bjorn_only st \<and>
   ignored_ips (snd (emit_device s st)) = ignored_ips st \<and>
   has_callback (snd (emit_device s st)) = has_callback st \<and>
   stale_timeout (snd (emit_device s st)) = stale_timeout st"
  proof (cases "sighting_key st s")
    case None
    then show ?thesis
      by (cases "s_ip s \<in> ignored_ips st") (simp_all add: emit_device_ignored sighting_key_None)
  next
    case (Some k)
    then show ?thesis
      by (simp add: emit_device_accepted)
  qed
  then show "strict_bjorn_only (snd (emit_device s st)) = strict_bjorn_only st"
    and "ignored_ips (snd (emit_device s st)) = ignored_ips st"
    and "has_callback (snd (emit_device s st)) = has_callback st"
    and "stale_timeout (snd (emit_device s st)) = stale_timeout st"
    by simp_all
qed

lemma sighting_key_emit_device:
  "sighting_key (snd (emit_device s st)) s' = sighting_key st s'"
  by (simp add: sighting_key_def emit_device_config cong: if_cong)

lemma known_after_sighting:
  "sighting_key st s = Some k \<Longrightarrow> known (snd (emit_device s st)) k (s_ip s)"
  by (simp add: emit_device_accepted known_def update_conv' seen_rec_ips)

lemma known_kept:
  assumes "known st k ip"
  shows "known (snd (emit_device s st)) k ip"
proof (cases "sighting_key st s")
  case None
  then show ?thesis
    using assms
    by (cases "s_ip s \<in> ignored_ips st") (simp_all add: emit_device_ignored sighting_key_None known_def)
next
  case (Some k')
  show ?thesis
    using assms
    by (auto simp: emit_device_accepted [OF Some] known_def update_conv' seen_rec_ips
        split: option.splits)
qed

lemma known_kept_run:
  "known st k ip \<Longrightarrow> known (snd (run (map Sighting ss) st)) k ip"
proof (induction ss arbitrary: st)
  case Nil
  then show ?case by simp
next
  case (Cons s ss)
  have "known (snd (emit_device s st)) k ip"
    using Cons.prems by (rule known_kept)
  then have "known (snd (run (map Sighting ss) (snd (emit_device s st)))) k ip"
    by (rule Cons.IH)
  then show ?case
    by (simp add: split_def Let_def)
qed

lemma sighting_key_run:
  "sighting_key (snd (run (map Sighting ss) st)) s' = sighting_key st s'"
proof (induction ss arbitrary: st)
  case Nil
  then show ?case by simp
next
  case (Cons s ss)
  have "sighting_key (snd (run (map Sighting ss) (snd (emit_device s st)))) s'
      = sighting_key (snd (emit_device s st)) s'"
    by (rule Cons.IH)
  then show ?case
    by (simp add: split_def Let_def sighting_key_emit_device)
qed

text \<open>
  Claim C3. A sighting that the pipeline registers under a key emits \<open>device_found\<close>
  exactly when the device is new or the address is new for the device (and a callback is
  set). After it, whatever sightings come in between, a sighting of the same key and
  address emits nothing, while \<open>last_seen\<close> of the device is still set to the time of
  that sighting.
\<close>

theorem repeat_sighting_suppressed:
  assumes "sighting_key st s = Some k"
  shows "fst (emit_device s st) =
           (if has_callback st \<and> \<not> known st k (s_ip s)
            then [DeviceFound (fst (alias_for (alias_mgr st) k) @ '' ('' @ ip_tag (s_ip s) @ '')'')
                    (s_ip s) (webapp s)]
            else []) \<and>
         (\<forall>mid s'. sighting_key st s' = Some k \<and> s_ip s' = s_ip s \<longrightarrow>
            fst (emit_device s' (snd (run (map Sighting (s # mid)) st))) = [] \<and>
            last_seen_of (snd (emit_device s' (snd (run (map Sighting (s # mid)) st)))) k
              = Some (seen_at s'))"
proof -
  have first: "fst (emit_device s st) =
           (if has_callback st \<and> \<not> known st k (s_ip s)
            then [DeviceFound (fst (alias_for (alias_mgr st) k) @ '' ('' @ ip_tag (s_ip s) @ '')'')
                    (s_ip s) (webapp s)]
            else [])"
    by (simp add: emit_device_accepted [OF assms] notify_def)
  have later: "fst (emit_device s' (snd (run (map Sighting (s # mid)) st))) = [] \<and>
      last_seen_of (snd (emit_device s' (snd (run (map Sighting (s # mid)) st)))) k = Some (seen_at s')"
    if same: "sighting_key st s' = Some k" "s_ip s' = s_ip s" for mid s'
  proof -
    define st1 where "st1 = snd (run (map Sighting (s # mid)) st)"
    have "known (snd (emit_device s st)) k (s_ip s)"
      using assms by (rule known_after_sighting)
    then have "known (snd (run (map Sighting mid) (snd (emit_device s st)))) k (s_ip s)"
      by (rule known_kept_run)
    then have kn: "known st1 k (s_ip s')"
      by (simp add: st1_def split_def Let_def same(2))
    have key: "sighting_key st1 s' = Some k"
      using same(1) unfolding st1_def by (simp only: sighting_key_run)
    have "fst (emit_device s' st1) = [] \<and> last_seen_of (snd (emit_device s' st1)) k = Some (seen_at s')"
      using kn by (simp add: emit_device_accepted [OF key] last_seen_of_def update_conv' seen_rec_last_seen)
    then show ?thesis
      unfolding st1_def .
  qed
  show ?thesis
    using first later by blast
qed

subsection \<open>The sweeper\<close>

lemma emit_device_reg_inv: "reg_inv st \<Longrightarrow> reg_inv (snd (emit_device s st))"
proof (cases "sighting_key st s")
  case None
  assume "reg_inv st"
  then show ?thesis
    using None
    by (cases "s_ip s \<in> ignored_ips st") (simp_all add: emit_device_ignored sighting_key_None reg_inv_def)
next
  case (Some k)
  assume inv: "reg_inv st"
  have "distinct (d_ips (seen_rec (map_of (registry st) k) b (s_ip s) t))" for b t
    using inv by (intro seen_rec_distinct) (auto simp: reg_inv_def dest!: map_of_SomeD)
  then show ?thesis
    using inv
    by (auto simp: emit_device_accepted [OF Some] reg_inv_def distinct_update dest!: set_update_cases)
qed

lemma sweeper_pass_reg_inv: "reg_inv st \<Longrightarrow> reg_inv (snd (sweeper_pass now st))"
  using set_pop_all_subset
  by (fastforce simp: reg_inv_def sweeper_pass_def Let_def distinct_pop_all)

lemma step_reg_inv: "reg_inv st \<Longrightarrow> reg_inv (snd (step act st))"
  by (cases act) (simp_all add: emit_device_reg_inv sweeper_pass_reg_inv, simp_all add: reg_inv_def reset_def)

lemma run_reg_inv: "reg_inv st \<Longrightarrow> reg_inv (snd (run acts st))"
proof (induction acts arbitrary: st)
  case Nil
  then show ?case by simp
next
  case (Cons act acts)
  have "reg_inv (snd (step act st))"
    using Cons.prems by (rule step_reg_inv)
  then have "reg_inv (snd (run acts (snd (step act st))))"
    by (rule Cons.IH)
  then show ?case
    by (simp add: split_def Let_def)
qed

lemma sweep_items_keys:
  "(key, r) \<in> set reg \<Longrightarrow> now - d_last_seen r > timeout \<Longrightarrow>
   key \<in> fst ` set (sweep_items cb now timeout reg)"
  by (induction reg) (auto split: if_splits)

lemma sweep_items_absent:
  "key \<notin> fst ` set reg \<Longrightarrow> filter (\<lambda>(key', es). key' = key) (sweep_items cb now timeout reg) = []"
  by (induction reg) (auto split: if_splits)

lemma sweep_items_visit:
  assumes "distinct (map fst reg)" "map_of reg key = Some r" "now - d_last_seen r > timeout"
  shows "filter (\<lambda>(key', es). key' = key) (sweep_items cb now timeout reg) =
           [(key, concat (map (\<lambda>ip. notify cb (DeviceGone ip)) (d_ips r)))]"
  using assms
proof (induction reg)
  case Nil
  then show ?case by simp
next
  case (Cons entry reg)
  obtain key' r' where entry: "entry = (key', r')"
    by (cases entry)
  show ?case
  proof (cases "key' = key")
    case True
    then have "r' = r" "key \<notin> fst ` set reg"
      using Cons.prems unfolding entry by auto
    then show ?thesis
      using True Cons.prems(3) unfolding entry by (simp add: sweep_items_absent)
  next
    case False
    then have "filter (\<lambda>(key', es). key' = key) (sweep_items cb now timeout reg) =
           [(key, concat (map (\<lambda>ip. notify cb (DeviceGone ip)) (d_ips r)))]"
      using Cons.IH Cons.prems unfolding entry by simp
    then show ?thesis
      using False unfolding entry by simp
  qed
qed

lemma notify_all: "concat (map (\<lambda>x. notify True (f x)) xs) = map f xs"
  by (induction xs) (simp_all add: notify_def)

lemma run_has_callback: "has_callback (snd (run acts st)) = has_callback st"
proof (induction acts arbitrary: st)
  case Nil
  then show ?case by simp
next
  case (Cons act acts)
  have "has_callback (snd (step act st)) = has_callback st"
    by (cases act) (simp_all add: emit_device_config sweeper_pass_def Let_def reset_def)
  then show ?case
    using Cons.IH [of "snd (step act st)"] by (simp add: split_def Let_def)
qed

text \<open>
  Claim C4. In every state the engine reaches with a callback set, a device of the registry
  whose \<open>last_seen\<close> is older than the staleness threshold is visited once by a sweeper
  pass, which emits one \<open>device_gone\<close> per address recorded for it (the addresses are
  pairwise different) and removes the device from the registry; a second pass, at any
  time, emits nothing for the device.
\<close>

theorem sweep_evicts_stale_device:
  assumes "st = snd (run acts (init_discovery True strict gateways own))"
    and "map_of (registry st) k = Some r"
    and "now - d_last_seen r > stale_timeout st"
  shows "filter (\<lambda>(key, es). key = k)
           (sweep_items (has_callback st) now (stale_timeout st) (registry st))
           = [(k, map DeviceGone (d_ips r))] \<and>
         distinct (d_ips r) \<and>
         fst (sweeper_pass now st)
           = concat (map snd (sweep_items (has_callback st) now (stale_timeout st) (registry st))) \<and>
         map_of (registry (snd (sweeper_pass now st))) k = None \<and>
         filter (\<lambda>(key, es). key = k)
           (sweep_items (has_callback (snd (sweeper_pass now st))) now'
              (stale_timeout (snd (sweeper_pass now st))) (registry (snd (sweeper_pass now st))))
           = []"
proof -
  have "reg_inv (init_discovery True strict gateways own)"
    by (simp add: reg_inv_def init_discovery_def)
  then have inv: "reg_inv st"
    unfolding assms(1) by (rule run_reg_inv)
  have cb: "has_callback st"
    unfolding assms(1) by (simp add: run_has_callback init_discovery_def)
  have visit: "filter (\<lambda>(key, es). key = k)
           (sweep_items (has_callback st) now (stale_timeout st) (registry st))
           = [(k, map DeviceGone (d_ips r))]"
    using inv assms(2,3) cb by (simp add: sweep_items_visit reg_inv_def notify_all)
  have once: "distinct (d_ips r)"
    using inv assms(2) by (auto simp: reg_inv_def dest!: map_of_SomeD)
  have "k \<in> fst ` set (sweep_items (has_callback st) now (stale_timeout st) (registry st))"
    using assms(2,3) by (intro sweep_items_keys [of k r]) (auto dest: map_of_SomeD)
  then have gone: "map_of (registry (snd (sweeper_pass now st))) k = None"
    by (simp add: sweeper_pass_def Let_def map_of_pop_all)
  then have "k \<notin> fst ` set (registry (snd (sweeper_pass now st)))"
    by (simp add: map_of_eq_None_iff)
  then have again: "filter (\<lambda>(key, es). key = k)
           (sweep_items (has_callback (snd (sweeper_pass now st))) now'
              (stale_timeout (snd (sweeper_pass now st))) (registry (snd (sweeper_pass now st))))
           = []"
    by (rule sweep_items_absent)
  show ?thesis
    using visit once gone again by (simp add: sweeper_pass_def Let_def)
qed

subsection \<open>Alias numbers and eviction\<close>

lemma alias_calls_fresh_map:
  assumes "distinct ks" "set ks \<inter> fst ` set m = {}" "map snd m = map bjorn_name [1..<Suc j]"
  shows "alias_calls m ks =
           (map bjorn_name [Suc j..<Suc j + length ks],
            m @ zip ks (map bjorn_name [Suc j..<Suc j + length ks]))"
  using assms
proof (induction ks arbitrary: m j)
  case Nil
  then show ?case by simp
next
  case (Cons k ks)
  have k: "k \<notin> fst ` set m" "map_of m k = None"
    using Cons.prems(2) by (auto simp: map_of_eq_None_iff)
  have idx: "next_index m = int (Suc j)"
    using Cons.prems(3) by (rule next_index_range)
  define m' where "m' = m @ [(k, bjorn_name (Suc j))]"
  have step: "alias_for m k = (bjorn_name (Suc j), m')"
    using k by (simp add: alias_for_def Let_def idx bjorn_name_def update_fresh_key m'_def)
  have rest: "alias_calls m' ks =
           (map bjorn_name [Suc (Suc j)..<Suc (Suc j) + length ks],
            m' @ zip ks (map bjorn_name [Suc (Suc j)..<Suc (Suc j) + length ks]))"
  proof (rule Cons.IH)
    show "distinct ks" using Cons.prems(1) by simp
    show "set ks \<inter> fst ` set m' = {}" using Cons.prems(1,2) by (auto simp: m'_def)
    show "map snd m' = map bjorn_name [1..<Suc (Suc j)]" using Cons.prems(3) by (simp add: m'_def)
  qed
  have upt: "[Suc j..<Suc j + length (k # ks)] = Suc j # [Suc (Suc j)..<Suc (Suc j) + length ks]"
    by (simp add: upt_conv_Cons del: upt_Suc)
  show ?case
    unfolding upt by (simp add: step rest del: upt_Suc) (simp add: m'_def)
qed

lemma sweeper_pass_alias_mgr: "alias_mgr (snd (sweeper_pass now st)) = alias_mgr st"
  by (simp add: sweeper_pass_def Let_def)

text \<open>
  Claim C5, as amended. Allocating aliases for N different keys on a fresh manager yields
  \<open>Bjorn 1\<close> to \<open>Bjorn N\<close> in order. The sweeper does not touch the alias map, so the
  number of an evicted device is not freed: a key not seen before receives
  \<open>Bjorn N+1\<close> after any sweep. Allocation picks the lowest positive number that no
  alias of the alias map carries.
\<close>

theorem alias_allocation_sequence:
  assumes "distinct (ks @ [k])"
  shows "fst (alias_calls [] ks) = map bjorn_name [1..<Suc (length ks)] \<and>
         alias_mgr (snd (sweeper_pass now st)) = alias_mgr st \<and>
         (alias_mgr st = snd (alias_calls [] ks) \<longrightarrow>
            fst (alias_for (alias_mgr (snd (sweeper_pass now st))) k) = bjorn_name (Suc (length ks))) \<and>
         (map_of m d = None \<longrightarrow>
            fst (alias_for m d) = ''Bjorn '' @ str_int (next_index m) \<and>
            1 \<le> next_index m \<and> next_index m \<notin> used_numbers m \<and>
            (\<forall>i. 1 \<le> i \<and> i < next_index m \<longrightarrow> i \<in> used_numbers m))"
proof -
  have ks: "distinct ks" "k \<notin> set ks"
    using assms by simp_all
  have calls: "alias_calls [] ks =
      (map bjorn_name [1..<Suc (length ks)], zip ks (map bjorn_name [1..<Suc (length ks)]))"
    using alias_calls_fresh_map [of ks "[]" 0] ks(1) by simp
  define m1 where "m1 = zip ks (map bjorn_name [1..<Suc (length ks)])"
  have vals: "map snd m1 = map bjorn_name [1..<Suc (length ks)]"
    unfolding m1_def by (simp del: upt_Suc)
  have "map fst m1 = ks"
    unfolding m1_def by (simp del: upt_Suc)
  then have "k \<notin> fst ` set m1"
    using ks(2) by (metis set_map)
  then have fresh: "map_of m1 k = None"
    by (simp add: map_of_eq_None_iff)
  have "fst (alias_for m1 k) = bjorn_name (Suc (length ks))"
    using fresh next_index_range [OF vals]
    by (simp add: alias_for_def Let_def bjorn_name_def)
  then have reuse: "alias_mgr st = snd (alias_calls [] ks) \<longrightarrow>
            fst (alias_for (alias_mgr (snd (sweeper_pass now st))) k) = bjorn_name (Suc (length ks))"
    by (simp add: sweeper_pass_alias_mgr calls m1_def del: upt_Suc)
  have lowest: "map_of m d = None \<longrightarrow>
            fst (alias_for m d) = ''Bjorn '' @ str_int (next_index m) \<and>
            1 \<le> next_index m \<and> next_index m \<notin> used_numbers m \<and>
            (\<forall>i. 1 \<le> i \<and> i < next_index m \<longrightarrow> i \<in> used_numbers m)"
    using next_index_spec [of m] by (simp add: alias_for_def Let_def)
  show ?thesis
    using calls sweeper_pass_alias_mgr reuse lowest by simp
qed

text \<open>
  Claim C5 as stated fails: two devices are sighted, the device holding number 2 is
  evicted by the sweeper, and the device sighted next receives number 3, not 2 again (and
  the aliases read \<open>Bjorn N\<close>).
\<close>

theorem freed_alias_not_reused_counterexample:
  "fst (run [Sighting (mk_sighting ''bjorn-a'' ''10.0.0.5'' True 0),
             Sighting (mk_sighting ''bjorn-b'' ''10.0.0.6'' True 0),
             Sighting (mk_sighting ''bjorn-a'' ''10.0.0.5'' True 100),
             Sweep 120,
             Sighting (mk_sighting ''bjorn-c'' ''10.0.0.7'' True 121)]
        (init_discovery True True [] []))
   = [DeviceFound ''Bjorn 1 (LAN)'' ''10.0.0.5'' True,
      DeviceFound ''Bjorn 2 (LAN)'' ''10.0.0.6'' True,
      DeviceGone ''10.0.0.6'',
      DeviceFound ''Bjorn 3 (LAN)'' ''10.0.0.7'' True]"
  by code_simp

theorem alias_allocation_sequence_witness:
  "distinct ([''bjorn-a'', ''bjorn-b''] @ [''bjorn-c'']) \<and>
   fst (alias_calls [] [''bjorn-a'', ''bjorn-b'']) = [''Bjorn 1'', ''Bjorn 2''] \<and>
   fst (alias_for (alias_mgr (snd (sweeper_pass 120
          ((init_discovery True True [] [])\<lparr>alias_mgr := snd (alias_calls [] [''bjorn-a'', ''bjorn-b''])\<rparr>))))
        ''bjorn-c'') = ''Bjorn 3''"
proof -
  have d: "distinct ([''bjorn-a'', ''bjorn-b''] @ [''bjorn-c''])"
    by simp
  have names: "map bjorn_name [1..<Suc (length [''bjorn-a'', ''bjorn-b''])] = [''Bjorn 1'', ''Bjorn 2'']"
    "bjorn_name (Suc (length [''bjorn-a'', ''bjorn-b''])) = ''Bjorn 3''"
    by code_simp+
  define st0 where "st0 =
    (init_discovery True True [] [])\<lparr>alias_mgr := snd (alias_calls [] [''bjorn-a'', ''bjorn-b''])\<rparr>"
  have mgr: "alias_mgr st0 = snd (alias_calls [] [''bjorn-a'', ''bjorn-b''])"
    unfolding st0_def by simp
  note inst = alias_allocation_sequence [OF d, where now = 120 and st = st0 and m = "[]" and d = "''bjorn-a''"]
  have calls: "fst (alias_calls [] [''bjorn-a'', ''bjorn-b'']) = [''Bjorn 1'', ''Bjorn 2'']"
    using conjunct1 [OF inst] unfolding names .
  have "fst (alias_for (alias_mgr (snd (sweeper_pass 120 st0))) ''bjorn-c'') = ''Bjorn 3''"
    using mp [OF conjunct1 [OF conjunct2 [OF conjunct2 [OF inst]]] mgr] unfolding names .
  then show ?thesis
    using d calls unfolding st0_def by (intro conjI)
qed

subsection \<open>The naming convention\<close>

lemma startswith_append: "startswith t (p @ q) \<Longrightarrow> startswith t p"
proof -
  assume "startswith t (p @ q)"
  then have "take (length p) (take (length (p @ q)) t) = take (length p) (p @ q)"
    by (simp only: startswith_def)
  then show ?thesis
    by (simp add: startswith_def min_def)
qed

text \<open>
  Claim C9, as amended. After stripping blanks, lower-casing and removing trailing dots,
  the naming check accepts exactly the name \<open>bjorn\<close>, the names that start with
  \<open>bjorn-\<close> or \<open>bjorn_\<close>, and the names that start with \<open>bjorn\<close> and end in
  \<open>.local\<close> or \<open>.home\<close>. Every accepted name starts with \<open>bjorn\<close>; in strict mode a
  sighting whose normalized host name is not accepted emits nothing and is not registered.
\<close>

theorem is_bjorn_hostname_iff:
  "(is_bjorn_hostname h \<longleftrightarrow>
      (let s = rstrip_dots (py_lower (py_strip h))
       in s = ''bjorn'' \<or> startswith s ''bjorn-'' \<or> startswith s ''bjorn_'' \<or>
          (startswith s ''bjorn'' \<and> (endswith s ''.local'' \<or> endswith s ''.home'')))) \<and>
   (is_bjorn_hostname h \<longrightarrow> startswith (rstrip_dots (py_lower (py_strip h))) ''bjorn'') \<and>
   (strict_bjorn_only st \<and> s_ip s \<notin> ignored_ips st \<and>
    \<not> is_bjorn_hostname (normalize_host (py_or (s_label s) (rdns_first s))) \<longrightarrow>
      emit_device s st = ([], st\<lparr>seen_ips := List.insert (s_ip s) (seen_ips st)\<rparr>))"
proof -
  define t where "t = rstrip_dots (py_lower (py_strip h))"
  have empty: "h = [] \<Longrightarrow> t = []"
    by (simp add: t_def py_strip_def py_lower_def rstrip_dots_def)
  have chain: "(is_bjorn_hostname h \<longleftrightarrow>
       t = ''bjorn'' \<or> startswith t ''bjorn-'' \<or> startswith t ''bjorn_'' \<or>
          (startswith t ''bjorn'' \<and> (endswith t ''.local'' \<or> endswith t ''.home'')))"
    using empty
    by (cases "h = []") (auto simp: is_bjorn_hostname_def Let_def t_def [symmetric] startswith_def endswith_def)
  have "startswith t ''bjorn''" if "startswith t (''bjorn'' @ [c])" for c
    using that by (rule startswith_append)
  then have pre: "is_bjorn_hostname h \<longrightarrow> startswith t ''bjorn''"
    using chain by (auto simp: startswith_def)
  have strict: "strict_bjorn_only st \<and> s_ip s \<notin> ignored_ips st \<and>
    \<not> is_bjorn_hostname (normalize_host (py_or (s_label s) (rdns_first s))) \<longrightarrow>
      emit_device s st = ([], st\<lparr>seen_ips := List.insert (s_ip s) (seen_ips st)\<rparr>)"
    by (simp add: emit_device_def Let_def)
  show ?thesis
    using chain pre strict unfolding t_def Let_def by blast
qed

theorem is_bjorn_hostname_iff_witness:
  "is_bjorn_hostname ''Bjorn-01.local.'' \<and>
   startswith (rstrip_dots (py_lower (py_strip ''Bjorn-01.local.''))) ''bjorn'' \<and>
   emit_device (mk_sighting ''dev-bjorn'' ''10.0.0.5'' True 0) (init_discovery True True [] [])
     = ([], (init_discovery True True [] [])\<lparr>seen_ips :=
          List.insert ''10.0.0.5'' (seen_ips (init_discovery True True [] []))\<rparr>)"
proof -
  have yes: "is_bjorn_hostname ''Bjorn-01.local.''"
    by code_simp
  have cond: "strict_bjorn_only (init_discovery True True [] []) \<and>
      s_ip (mk_sighting ''dev-bjorn'' ''10.0.0.5'' True 0) \<notin> ignored_ips (init_discovery True True [] []) \<and>
      \<not> is_bjorn_hostname (normalize_host (py_or (s_label (mk_sighting ''dev-bjorn'' ''10.0.0.5'' True 0))
           (rdns_first (mk_sighting ''dev-bjorn'' ''10.0.0.5'' True 0))))"
    by code_simp
  note inst = is_bjorn_hostname_iff [of "''Bjorn-01.local.''" "init_discovery True True [] []"
        "mk_sighting ''dev-bjorn'' ''10.0.0.5'' True 0"]
  have pre: "startswith (rstrip_dots (py_lower (py_strip ''Bjorn-01.local.''))) ''bjorn''"
    by (rule mp [OF conjunct1 [OF conjunct2 [OF inst]] yes])
  have rej: "emit_device (mk_sighting ''dev-bjorn'' ''10.0.0.5'' True 0) (init_discovery True True [] [])
     = ([], (init_discovery True True [] [])\<lparr>seen_ips :=
          List.insert ''10.0.0.5'' (seen_ips (init_discovery True True [] []))\<rparr>)"
    using mp [OF conjunct2 [OF conjunct2 [OF inst]] cond] by (simp add: mk_sighting_def)
  show ?thesis
    using yes pre rej by (intro conjI)
qed

text \<open>
  Claim C9 as stated fails: \<open>dev-bjorn\<close>, the device name after a prefix, is rejected,
  and in strict mode a sighting with this label emits nothing and registers no device.
\<close>

theorem prefixed_hostname_counterexample:
  "\<not> is_bjorn_hostname ''dev-bjorn'' \<and>
   fst (emit_device (mk_sighting ''dev-bjorn'' ''10.0.0.5'' True 0) (init_discovery True True [] [])) = [] \<and>
   registry (snd (emit_device (mk_sighting ''dev-bjorn'' ''10.0.0.5'' True 0)
      (init_discovery True True [] []))) = []"
  by code_simp

subsection \<open>Runs of the engine on concrete inputs\<close>

theorem ignored_address_silent_witness:
  "''192.168.1.1'' \<in> build_ignored_ips [] [] \<and>
   fst (run [Sighting (mk_sighting ''bjorn'' ''192.168.1.1'' True 0),
             Sighting (mk_sighting ''bjorn'' ''10.0.0.5'' True 0),
             Poll [(''192.168.1.1'', True), (''10.0.0.5'', True)],
             Sweep 100]
          (init_discovery True True [] []))
     = [DeviceFound ''Bjorn 1 (LAN)'' ''10.0.0.5'' True, WebappStatus ''10.0.0.5'' True,
        DeviceGone ''10.0.0.5''] \<and>
   event_address (WebappStatus ''10.0.0.5'' True) \<noteq> Some ''192.168.1.1'' \<and>
   ''192.168.1.1'' \<notin> set (seen_ips (snd (run [Sighting (mk_sighting ''bjorn'' ''192.168.1.1'' True 0),
             Sighting (mk_sighting ''bjorn'' ''10.0.0.5'' True 0),
             Poll [(''192.168.1.1'', True), (''10.0.0.5'', True)],
             Sweep 100]
          (init_discovery True True [] []))))"
proof -
  have ign: "''192.168.1.1'' \<in> build_ignored_ips [] []"
    by (simp add: build_ignored_ips_def)
  have trace: "fst (run [Sighting (mk_sighting ''bjorn'' ''192.168.1.1'' True 0),
             Sighting (mk_sighting ''bjorn'' ''10.0.0.5'' True 0),
             Poll [(''192.168.1.1'', True), (''10.0.0.5'', True)],
             Sweep 100]
          (init_discovery True True [] []))
     = [DeviceFound ''Bjorn 1 (LAN)'' ''10.0.0.5'' True, WebappStatus ''10.0.0.5'' True,
        DeviceGone ''10.0.0.5'']"
    by code_simp
  note inst = ignored_address_silent [OF ign, of "[Sighting (mk_sighting ''bjorn'' ''192.168.1.1'' True 0),
             Sighting (mk_sighting ''bjorn'' ''10.0.0.5'' True 0),
             Poll [(''192.168.1.1'', True), (''10.0.0.5'', True)],
             Sweep 100]" True True]
  have "\<forall>e\<in>set [DeviceFound ''Bjorn 1 (LAN)'' ''10.0.0.5'' True, WebappStatus ''10.0.0.5'' True,
        DeviceGone ''10.0.0.5'']. event_address e \<noteq> Some ''192.168.1.1''"
    using conjunct1 [OF inst] unfolding trace .
  then have ev: "event_address (WebappStatus ''10.0.0.5'' True) \<noteq> Some ''192.168.1.1''"
    by simp
  show ?thesis
    using ign trace ev conjunct1 [OF conjunct2 [OF inst]]
    by (intro conjI)
qed

theorem repeat_sighting_suppressed_witness:
  "sighting_key (init_discovery True True [] []) (mk_sighting ''bjorn-01.local'' ''10.0.0.5'' True 0)
     = Some ''bjorn-01'' \<and>
   fst (emit_device (mk_sighting ''bjorn-01.local'' ''10.0.0.5'' True 0) (init_discovery True True [] []))
     = [DeviceFound ''Bjorn 1 (LAN)'' ''10.0.0.5'' True] \<and>
   fst (emit_device (mk_sighting ''BJORN-01'' ''10.0.0.5'' True 2)
     (snd (run (map Sighting [mk_sighting ''bjorn-01.local'' ''10.0.0.5'' True 0,
                              mk_sighting ''bjorn-01'' ''172.20.2.7'' False 1])
       (init_discovery True True [] [])))) = [] \<and>
   last_seen_of (snd (emit_device (mk_sighting ''BJORN-01'' ''10.0.0.5'' True 2)
     (snd (run (map Sighting [mk_sighting ''bjorn-01.local'' ''10.0.0.5'' True 0,
                              mk_sighting ''bjorn-01'' ''172.20.2.7'' False 1])
       (init_discovery True True [] []))))) ''bjorn-01'' = Some 2"
proof -
  define st where "st = init_discovery True True [] []"
  define s where "s = mk_sighting ''bjorn-01.local'' ''10.0.0.5'' True 0"
  define s' where "s' = mk_sighting ''BJORN-01'' ''10.0.0.5'' True 2"
  have key: "sighting_key st s = Some ''bjorn-01''"
    unfolding st_def s_def by code_simp
  have again: "sighting_key st s' = Some ''bjorn-01'' \<and> s_ip s' = s_ip s"
    unfolding st_def s_def s'_def by code_simp
  have first: "fst (emit_device s st) = [DeviceFound ''Bjorn 1 (LAN)'' ''10.0.0.5'' True]"
    unfolding st_def s_def by code_simp
  have seen: "seen_at s' = 2"
    unfolding s'_def by (simp add: mk_sighting_def)
  note inst = repeat_sighting_suppressed [OF key]
  have later: "fst (emit_device s' (snd (run (map Sighting (s # [mk_sighting ''bjorn-01'' ''172.20.2.7'' False 1])) st))) = [] \<and>
      last_seen_of (snd (emit_device s' (snd (run (map Sighting (s # [mk_sighting ''bjorn-01'' ''172.20.2.7'' False 1])) st)))) ''bjorn-01''
        = Some (seen_at s')"
    using conjunct2 [OF inst] again by blast
  show ?thesis
    using key first later unfolding seen unfolding st_def s_def s'_def by (intro conjI) blast+
qed

theorem sweep_evicts_stale_device_witness:
  "map_of (registry (snd (run [Sighting (mk_sighting ''bjorn-a'' ''10.0.0.5'' True 0),
                               Sighting (mk_sighting ''bjorn-a'' ''172.20.2.7'' True 5)]
                            (init_discovery True True [] [])))) ''bjorn-a''
     = Some \<lparr>d_alias = ''Bjorn 1'', d_ips = [''10.0.0.5'', ''172.20.2.7''], d_last_seen = 5\<rparr> \<and>
   fst (sweeper_pass 100 (snd (run [Sighting (mk_sighting ''bjorn-a'' ''10.0.0.5'' True 0),
                               Sighting (mk_sighting ''bjorn-a'' ''172.20.2.7'' True 5)]
                            (init_discovery True True [] []))))
     = [DeviceGone ''10.0.0.5'', DeviceGone ''172.20.2.7''] \<and>
   map_of (registry (snd (sweeper_pass 100 (snd (run [Sighting (mk_sighting ''bjorn-a'' ''10.0.0.5'' True 0),
                               Sighting (mk_sighting ''bjorn-a'' ''172.20.2.7'' True 5)]
                            (init_discovery True True [] [])))))) ''bjorn-a'' = None"
proof -
  define st where "st = snd (run [Sighting (mk_sighting ''bjorn-a'' ''10.0.0.5'' True 0),
                               Sighting (mk_sighting ''bjorn-a'' ''172.20.2.7'' True 5)]
                            (init_discovery True True [] []))"
  define r where "r = \<lparr>d_alias = ''Bjorn 1'', d_ips = [''10.0.0.5'', ''172.20.2.7''], d_last_seen = 5\<rparr>"
  have entry: "map_of (registry st) ''bjorn-a'' = Some r"
    unfolding st_def r_def by code_simp
  have stale: "100 - d_last_seen r > stale_timeout st"
    unfolding st_def r_def by code_simp
  have events: "fst (sweeper_pass 100 st) = [DeviceGone ''10.0.0.5'', DeviceGone ''172.20.2.7'']"
    unfolding st_def by code_simp
  note inst = sweep_evicts_stale_device [OF st_def entry stale]
  have gone: "map_of (registry (snd (sweeper_pass 100 st))) ''bjorn-a'' = None"
    using inst by blast
  show ?thesis
    using entry events gone unfolding st_def r_def by (intro conjI)
qed

section \<open>Properties of the SSH worker\<close>

subsection \<open>The step marker\<close>

text \<open>
  The matcher agrees with the pattern read as a regular expression: what it returns is a
  match of the pattern at the start of the input, and where the pattern matches with some
  groups, the matcher returns the same first group and the second group extended by the
  digits that follow it, which is the greedy match.
\<close>

lemma match_lit_ci_Some:
  "match_lit_ci p s = Some r \<longleftrightarrow> (\<exists>w. s = w @ r \<and> py_lower w = p)"
proof (induction p s rule: match_lit_ci.induct)
  case (1 s)
  then show ?case by (simp add: py_lower_def)
next
  case (2 p ps)
  then show ?case by (simp add: py_lower_def)
next
  case (3 p ps c cs)
  show ?case
  proof (cases "lower_char c = p")
    case True
    have "(\<exists>w. c # cs = w @ r \<and> py_lower w = p # ps) \<longleftrightarrow> (\<exists>w. cs = w @ r \<and> py_lower w = ps)"
    proof
      assume "\<exists>w. c # cs = w @ r \<and> py_lower w = p # ps"
      then obtain w where w: "c # cs = w @ r" "py_lower w = p # ps"
        by blast
      then obtain w' where "w = c # w'"
        by (cases w) (auto simp: py_lower_def)
      then show "\<exists>w. cs = w @ r \<and> py_lower w = ps"
        using w by (auto simp: py_lower_def)
    next
      assume "\<exists>w. cs = w @ r \<and> py_lower w = ps"
      then obtain w where "cs = w @ r" "py_lower w = ps"
        by blast
      then have "c # cs = (c # w) @ r \<and> py_lower (c # w) = p # ps"
        using True by (simp add: py_lower_def)
      then show "\<exists>w. c # cs = w @ r \<and> py_lower w = p # ps"
        by blast
    qed
    then show ?thesis
      using 3 True by simp
  next
    case False
    have "\<not> (\<exists>w. c # cs = w @ r \<and> py_lower w = p # ps)"
    proof
      assume "\<exists>w. c # cs = w @ r \<and> py_lower w = p # ps"
      then obtain w where w: "c # cs = w @ r" "py_lower w = p # ps"
        by blast
      then show False
        using False by (cases w) (auto simp: py_lower_def)
    qed
    then show ?thesis
      using False by simp
  qed
qed

lemma many1_Some:
  "many1 P s = Some (tk, r) \<longleftrightarrow>
     (s = tk @ r \<and> tk \<noteq> [] \<and> (\<forall>c\<in>set tk. P c) \<and> (r = [] \<or> \<not> P (hd r)))"
proof
  assume "many1 P s = Some (tk, r)"
  then have tk: "tk = takeWhile P s" "r = dropWhile P s" "tk \<noteq> []"
    by (auto simp: many1_def split: if_splits)
  have "r = [] \<or> \<not> P (hd r)"
    unfolding tk(2) using hd_dropWhile [of P s] by blast
  then show "s = tk @ r \<and> tk \<noteq> [] \<and> (\<forall>c\<in>set tk. P c) \<and> (r = [] \<or> \<not> P (hd r))"
    using tk by (auto dest: set_takeWhileD)
next
  assume a: "s = tk @ r \<and> tk \<noteq> [] \<and> (\<forall>c\<in>set tk. P c) \<and> (r = [] \<or> \<not> P (hd r))"
  then have "takeWhile P s = tk \<and> dropWhile P s = r"
    by (cases r) (auto simp: takeWhile_append2 dropWhile_append2)
  then show "many1 P s = Some (tk, r)"
    using a by (simp add: many1_def)
qed

lemma match_step_sound:
  assumes "match_step s = Some (g1, g2)"
  shows "step_marker s g1 g2"
proof -
  obtain r1 sp1 r2 r3 sp2 r4 r5 sp3 r6 r7 where
    m: "match_lit_ci ''step'' s = Some r1" "many1 isspace r1 = Some (sp1, r2)"
      "many1 isdigit r2 = Some (g1, r3)" "many1 isspace r3 = Some (sp2, r4)"
      "match_lit_ci ''of'' r4 = Some r5" "many1 isspace r5 = Some (sp3, r6)"
      "many1 isdigit r6 = Some (g2, r7)"
    using assms by (auto simp: match_step_def split: option.splits)
  obtain w where w: "s = w @ r1" "py_lower w = ''step''"
    using m(1) unfolding match_lit_ci_Some by blast
  obtain w' where w': "r4 = w' @ r5" "py_lower w' = ''of''"
    using m(5) unfolding match_lit_ci_Some by blast
  have parts: "r1 = sp1 @ r2" "r2 = g1 @ r3" "r3 = sp2 @ r4" "r5 = sp3 @ r6" "r6 = g2 @ r7"
    using m(2,3,4,6,7) unfolding many1_Some by simp_all
  have "s = w @ sp1 @ g1 @ sp2 @ w' @ sp3 @ g2 @ r7"
    using w(1) w'(1) parts by simp
  then show ?thesis
    unfolding step_marker_def
    using w(2) w'(2) m(2,3,4,6,7) unfolding many1_Some by blast
qed

lemma many1_run:
  assumes "tk \<noteq> []" "\<forall>c\<in>set tk. P c" "r = [] \<or> \<not> P (hd r)"
  shows "many1 P (tk @ r) = Some (tk, r)"
  using assms unfolding many1_Some by simp

lemma match_step_complete:
  assumes "step_marker s g1 g2"
  shows "\<exists>more. match_step s = Some (g1, g2 @ more) \<and> (\<forall>c\<in>set more. isdigit c)"
proof -
  obtain w sp1 sp2 w' sp3 rest where
    s: "s = w @ sp1 @ g1 @ sp2 @ w' @ sp3 @ g2 @ rest"
    and w: "py_lower w = ''step''" "py_lower w' = ''of''"
    and sp: "sp1 \<noteq> []" "\<forall>c\<in>set sp1. isspace c" "sp2 \<noteq> []" "\<forall>c\<in>set sp2. isspace c"
      "sp3 \<noteq> []" "\<forall>c\<in>set sp3. isspace c"
    and g: "g1 \<noteq> []" "\<forall>c\<in>set g1. isdigit c" "g2 \<noteq> []" "\<forall>c\<in>set g2. isdigit c"
    using assms unfolding step_marker_def by blast
  define more where "more = takeWhile isdigit rest"
  define rest' where "rest' = dropWhile isdigit rest"
  have rest: "rest = more @ rest'" "\<forall>c\<in>set more. isdigit c" "rest' = [] \<or> \<not> isdigit (hd rest')"
    using hd_dropWhile [of isdigit rest]
    by (auto simp: more_def rest'_def dest: set_takeWhileD)
  have hd_digit: "\<not> isspace (hd (g @ x))" if "g \<noteq> []" "\<forall>c\<in>set g. isdigit c" for g x
    using that by (cases g) (auto simp: isdigit_not_space)
  have hd_space: "\<not> isdigit (hd (sp @ x))" if "sp \<noteq> []" "\<forall>c\<in>set sp. isspace c" for sp x
    using that isdigit_not_space by (cases sp) auto
  have "hd w' \<noteq> CHR '' '' \<and> w' \<noteq> [] \<and> lower_char (hd w') = CHR ''o''"
    using w(2) by (cases w') (auto simp: py_lower_def lower_char_def split: if_splits)
  then have hd_of: "\<not> isspace (hd (w' @ x))" for x
    by (cases w') (auto simp: lower_char_def isspace_def split: if_splits)
  have m1: "match_lit_ci ''step'' s = Some (sp1 @ g1 @ sp2 @ w' @ sp3 @ g2 @ rest)"
    unfolding match_lit_ci_Some using s w(1) by blast
  have m2: "many1 isspace (sp1 @ (g1 @ sp2 @ w' @ sp3 @ g2 @ rest)) = Some (sp1, g1 @ sp2 @ w' @ sp3 @ g2 @ rest)"
    using sp(1,2) hd_digit [OF g(1,2)] by (intro many1_run) simp_all
  have m3: "many1 isdigit (g1 @ (sp2 @ w' @ sp3 @ g2 @ rest)) = Some (g1, sp2 @ w' @ sp3 @ g2 @ rest)"
    using g(1,2) hd_space [OF sp(3,4)] by (intro many1_run) simp_all
  have m4: "many1 isspace (sp2 @ (w' @ sp3 @ g2 @ rest)) = Some (sp2, w' @ sp3 @ g2 @ rest)"
    using sp(3,4) hd_of by (intro many1_run) simp_all
  have m5: "match_lit_ci ''of'' (w' @ sp3 @ g2 @ rest) = Some (sp3 @ g2 @ rest)"
    unfolding match_lit_ci_Some using w(2) by blast
  have m6: "many1 isspace (sp3 @ (g2 @ rest)) = Some (sp3, g2 @ rest)"
    using sp(5,6) hd_digit [OF g(3,4)] by (intro many1_run) simp_all
  have "many1 isdigit ((g2 @ more) @ rest') = Some (g2 @ more, rest')"
    using g(3,4) rest(2,3) by (intro many1_run) auto
  then have m7: "many1 isdigit (g2 @ rest) = Some (g2 @ more, rest')"
    using rest(1) by simp
  have "match_step s = Some (g1, g2 @ more)"
    using m1 m2 m3 m4 m5 m6 m7 by (simp add: match_step_def)
  then show ?thesis
    using rest(2) by blast
qed

subsection \<open>Progress events\<close>

lemma progress_of_append: "progress_of (xs @ ys) = progress_of xs @ progress_of ys"
  by (simp add: progress_of_def map_filter_def)

lemma sends_of_append: "sends_of (xs @ ys) = sends_of xs @ sends_of ys"
  by (simp add: sends_of_def map_filter_def)

lemma progress_of_concat: "progress_of (concat xss) = concat (map progress_of xss)"
  by (induction xss) (simp_all add: progress_of_append, simp add: progress_of_def)

lemma sends_of_concat: "sends_of (concat xss) = concat (map sends_of xss)"
  by (induction xss) (simp_all add: sends_of_append, simp add: sends_of_def)

lemma py_strip_empty_iff: "py_strip s = [] \<longleftrightarrow> (\<forall>c\<in>set s. isspace c)"
proof -
  have "py_strip s = [] \<longleftrightarrow> (\<forall>c\<in>set (dropWhile isspace s). isspace c)"
    by (simp add: py_strip_def)
  also have "\<dots> \<longleftrightarrow> dropWhile isspace s = []"
  proof
    assume all: "\<forall>c\<in>set (dropWhile isspace s). isspace c"
    show "dropWhile isspace s = []"
    proof (rule ccontr)
      assume ne: "dropWhile isspace s \<noteq> []"
      then have "\<not> isspace (hd (dropWhile isspace s))"
        by (rule hd_dropWhile)
      then show False
        using all ne by simp
    qed
  next
    assume e: "dropWhile isspace s = []"
    show "\<forall>c\<in>set (dropWhile isspace s). isspace c"
      unfolding e by simp
  qed
  also have "\<dots> \<longleftrightarrow> (\<forall>c\<in>set s. isspace c)"
    by simp
  finally show ?thesis .
qed

lemma match_step_starts: "match_step s = Some g \<Longrightarrow> \<exists>c cs. s = c # cs \<and> \<not> isspace c"
proof (cases s)
  case Nil
  assume "match_step s = Some g"
  then show ?thesis
    using Nil by (simp add: match_step_def)
next
  case (Cons c cs)
  assume "match_step s = Some g"
  then have "lower_char c = CHR ''s''"
    using Cons by (simp add: match_step_def split: if_splits)
  then have "\<not> isspace c"
    by (auto simp: lower_char_def isspace_def split: if_splits)
  then show ?thesis
    using Cons by simp
qed

lemma step_search_nonblank: "step_search line = Some g \<Longrightarrow> nonblank line"
proof (induction line)
  case Nil
  then show ?case by simp
next
  case (Cons c cs)
  show ?case
  proof (cases "match_step (c # cs)")
    case None
    then have "nonblank cs"
      using Cons by simp
    then show ?thesis
      by (auto simp: nonblank_def py_strip_empty_iff)
  next
    case (Some g')
    then have "\<not> isspace c"
      using match_step_starts by fastforce
    then show ?thesis
      by (auto simp: nonblank_def py_strip_empty_iff)
  qed
qed

lemma progress_of_process_line:
  "progress_of (process_line line) = (case step_progress line of Some p \<Rightarrow> [p] | None \<Rightarrow> [])"
proof (cases "step_search line")
  case None
  then show ?thesis
    by (simp add: process_line_def step_progress_def progress_of_def)
next
  case (Some g)
  then have "nonblank line"
    by (rule step_search_nonblank)
  then show ?thesis
    using Some
    by (cases g) (simp add: process_line_def step_progress_def progress_of_def)
qed

lemma progress_of_process_chunk:
  "progress_of (process_chunk d) = List.map_filter step_progress (splitlines (decode_utf8 d))"
proof -
  have "concat (map (\<lambda>l. case step_progress l of Some p \<Rightarrow> [p] | None \<Rightarrow> []) ls)
      = List.map_filter step_progress ls" for ls
    by (induction ls) (simp_all split: option.splits)
  then show ?thesis
    by (simp add: process_chunk_def progress_of_concat comp_def progress_of_process_line)
qed

lemma progress_of_drain_chunk: "progress_of (drain_chunk d) = []"
proof -
  have "progress_of (drain_line l) = []" for l
    by (simp add: drain_line_def progress_of_def)
  then show ?thesis
    by (simp add: drain_chunk_def progress_of_concat comp_def)
qed

lemma progress_of_finish_install: "progress_of (finish_install rb drained rc) = []"
  by (simp add: finish_install_def progress_of_append progress_of_concat comp_def
      progress_of_drain_chunk) (simp add: progress_of_def)

lemma progress_of_Nil: "progress_of [] = []"
  by (simp add: progress_of_def)

lemma progress_of_check_prompt: "progress_of (fst (check_prompt password st)) = []"
  by (cases st) (simp add: check_prompt_def progress_of_def)

lemma progress_of_receive:
  "progress_of (fst (receive data st)) =
     (case data of None \<Rightarrow> [] | Some d \<Rightarrow> List.map_filter step_progress (splitlines (decode_utf8 d)))"
  by (cases st; cases data) (simp_all add: receive_def progress_of_Nil progress_of_process_chunk)

lemma progress_of_iteration:
  "progress_of (fst (iteration password data st)) =
     (case data of None \<Rightarrow> [] | Some d \<Rightarrow> List.map_filter step_progress (splitlines (decode_utf8 d)))"
  by (simp add: iteration_def split_def Let_def progress_of_append progress_of_receive
      progress_of_check_prompt)

lemma progress_of_install_loop:
  "progress_of (fst (install_loop password rb st polls)) =
     concat (map (\<lambda>d. List.map_filter step_progress (splitlines (decode_utf8 d))) (loop_chunks polls))"
proof (induction polls arbitrary: st)
  case Nil
  then show ?case
    by (simp add: progress_of_Nil)
next
  case (Cons p polls)
  show ?case
  proof (cases p)
    case (Running data)
    show ?thesis
      using Cons.IH [of "snd (iteration password data st)"]
      by (cases data) (simp_all add: Running split_def Let_def progress_of_append progress_of_iteration)
  next
    case (Exited data drained rc)
    show ?thesis
      by (cases data)
        (simp_all add: Exited split_def Let_def progress_of_append progress_of_iteration
          progress_of_finish_install)
  qed
qed

text \<open>
  The progress events of a run of the installation loop are, in order, the markers of the
  lines of the chunks that the poll loop itself receives, up to the iteration in which it
  sees the exit status: every such line that matches \<open>Step n of total\<close> in any letter
  case gives exactly one event \<open>(n, total)\<close>, and no other action of the run is a
  progress event.
\<close>

theorem progress_events_in_order:
  "progress_of (fst (install_loop password reboot_after st polls)) =
     concat (map (\<lambda>d. List.map_filter step_progress (splitlines (decode_utf8 d))) (loop_chunks polls)) \<and>
   progress_of (process_line line) = (case step_progress line of Some p \<Rightarrow> [p] | None \<Rightarrow> []) \<and>
   progress_of (finish_install reboot_after drained rc) = []"
  using progress_of_install_loop progress_of_process_line progress_of_finish_install
  by (intro conjI)

theorem progress_events_in_order_witness:
  "progress_of (fst (install_loop ''pw'' False (False, [])
      [Running (Some (''Step 3 of 8: update'' @ [CHR 0x0A] @ ''Step 4 of 8: install'' @ [CHR 0x0A])),
       Exited None [] 0]))
   = [(3, 8), (4, 8)]"
proof -
  have "concat (map (\<lambda>d. List.map_filter step_progress (splitlines (decode_utf8 d)))
      (loop_chunks [Running (Some (''Step 3 of 8: update'' @ [CHR 0x0A] @ ''Step 4 of 8: install'' @ [CHR 0x0A])),
       Exited None [] 0])) = [(3, 8), (4, 8)]"
    by code_simp
  then show ?thesis
    using conjunct1 [OF progress_events_in_order [of "''pw''" False "(False, [])"
      "[Running (Some (''Step 3 of 8: update'' @ [CHR 0x0A] @ ''Step 4 of 8: install'' @ [CHR 0x0A])),
       Exited None [] 0]"]]
    by simp
qed

text \<open>
  Claim C1 at a failing input. The poll loop receives \<open>Step 3 of 8: update\<close> in the
  iteration that sees the exit status, and the drain loop receives
  \<open>Step 4 of 8: install\<close>. The line matches the marker, and the poll loop would report
  it (\<open>process_line\<close>); the drain loop only logs it (\<open>drain_line\<close>), so the run emits
  the progress event \<open>(3, 8)\<close> and no event \<open>(4, 8)\<close>. The claim says that every
  received line that matches the marker gives a progress event.
\<close>

theorem drained_step_marker_not_reported:
  "step_progress ''Step 4 of 8: install'' = Some (4, 8) \<and>
   process_line ''Step 4 of 8: install'' =
     [Emit (Log ''Step 4 of 8: install'' ''info''), Emit (Progress 4 8 ''Step 4/8'')] \<and>
   drain_line ''Step 4 of 8: install'' = [Emit (Log ''Step 4 of 8: install'' ''info'')] \<and>
   fst (install_loop ''pw'' False (False, [])
      [Exited (Some (''Step 3 of 8: update'' @ [CHR 0x0A])) [''Step 4 of 8: install'' @ [CHR 0x0A]] 0])
   = [Emit (Log ''Step 3 of 8: update'' ''info''), Emit (Progress 3 8 ''Step 3/8''),
      Emit (Log ''Step 4 of 8: install'' ''info''),
      Emit (Log ''Installation completed successfully!'' ''success'')]"
  by code_simp

subsection \<open>The password prompt\<close>

lemma sends_of_Nil: "sends_of [] = []"
  by (simp add: sends_of_def)

lemma sends_of_Cons:
  "sends_of (ChanSend s # xs) = s # sends_of xs"
  "sends_of (Emit e # xs) = sends_of xs"
  by (simp_all add: sends_of_def)

lemma sends_of_process_chunk: "sends_of (process_chunk d) = []"
proof -
  have "sends_of (process_line l) = []" for l
    by (simp add: process_line_def sends_of_def split: option.splits)
  then show ?thesis
    by (simp add: process_chunk_def sends_of_concat comp_def)
qed

lemma sends_of_finish_install: "sends_of (finish_install rb drained rc) = []"
proof -
  have "sends_of (drain_line l) = []" for l
    by (simp add: drain_line_def sends_of_def)
  then have "sends_of (drain_chunk d) = []" for d
    by (simp add: drain_chunk_def sends_of_concat comp_def)
  then show ?thesis
    by (simp add: finish_install_def sends_of_append sends_of_concat comp_def)
      (simp add: sends_of_def)
qed

lemma iteration_sent:
  "iteration password data (True, buff) =
     (fst (receive data (True, buff)), (True, buff @ (case data of None \<Rightarrow> [] | Some d \<Rightarrow> d)))"
  by (cases data) (simp_all add: iteration_def receive_def check_prompt_def)

lemma sends_of_receive: "sends_of (fst (receive data st)) = []"
  by (cases st; cases data) (simp_all add: receive_def sends_of_Nil sends_of_process_chunk)

lemma iteration_unsent:
  "iteration password data (False, buff) =
     (let acc = buff @ (case data of None \<Rightarrow> [] | Some d \<Rightarrow> d)
      in if has_prompt acc
         then (fst (receive data (False, buff)) @
                 [ChanSend (password @ [CHR 0x0A]), Emit (Log ''[SUDO] Password sent'' ''info'')],
               (True, []))
         else (fst (receive data (False, buff)), (False, acc)))"
  by (cases data) (simp_all add: iteration_def receive_def check_prompt_def Let_def)

lemma sends_after_sent: "sends_of (fst (install_loop password rb (True, buff) polls)) = []"
proof (induction polls arbitrary: buff)
  case Nil
  then show ?case by (simp add: sends_of_Nil)
next
  case (Cons p polls)
  show ?case
  proof (cases p)
    case (Running data)
    show ?thesis
      by (simp add: Running iteration_sent sends_of_append sends_of_receive Cons.IH split_def Let_def)
  next
    case (Exited data drained rc)
    show ?thesis
      by (simp add: Exited iteration_sent sends_of_append sends_of_receive sends_of_finish_install)
  qed
qed

lemma sends_before_sent:
  "sends_of (fst (install_loop password rb (False, buff) polls)) =
     (if prompt_seen buff (loop_data polls) then [password @ [CHR 0x0A]] else [])"
proof (induction polls arbitrary: buff)
  case Nil
  then show ?case by (simp add: sends_of_Nil)
next
  case (Cons p polls)
  have one: "sends_of [ChanSend (password @ [CHR 0x0A]), Emit (Log ''[SUDO] Password sent'' ''info'')]
      = [password @ [CHR 0x0A]]"
    by (simp add: sends_of_def)
  show ?case
  proof (cases p)
    case (Running data)
    define acc where "acc = buff @ (case data of None \<Rightarrow> [] | Some d \<Rightarrow> d)"
    show ?thesis
    proof (cases "has_prompt acc")
      case True
      then show ?thesis
        using one
        by (simp add: Running iteration_unsent acc_def [symmetric] sends_of_append sends_of_Cons
            sends_of_receive sends_after_sent split_def Let_def)
    next
      case False
      then show ?thesis
        using Cons.IH [of acc]
        by (simp add: Running iteration_unsent acc_def [symmetric] sends_of_append
            sends_of_receive split_def Let_def)
    qed
  next
    case (Exited data drained rc)
    define acc where "acc = buff @ (case data of None \<Rightarrow> [] | Some d \<Rightarrow> d)"
    show ?thesis
      using one
      by (cases "has_prompt acc")
        (simp_all add: Exited iteration_unsent acc_def [symmetric] sends_of_append sends_of_Cons
          sends_of_receive sends_of_finish_install Let_def)
  qed
qed

text \<open>
  Claim C2. In a run of the installation loop the password for the privilege escalation,
  followed by a newline, is written to the channel at most once: it is written in the
  first iteration at whose prompt test the buffer accumulated so far contains \<open>[sudo]\<close>
  or \<open>password for\<close> in any letter case, the buffer is then empty and \<open>pw_sent\<close>
  set, and once \<open>pw_sent\<close> is set nothing is written whatever the output contains.
\<close>

theorem password_sent_at_most_once:
  "sends_of (fst (install_loop password reboot_after (False, buff) polls)) =
     (if prompt_seen buff (loop_data polls) then [password @ [CHR 0x0A]] else []) \<and>
   sends_of (fst (install_loop password reboot_after (True, buff) polls)) = [] \<and>
   length (sends_of (fst (run_install w reboot_after polls))) \<le> 1 \<and>
   (has_prompt buff \<longrightarrow>
      check_prompt password (False, buff) =
        ([ChanSend (password @ [CHR 0x0A]), Emit (Log ''[SUDO] Password sent'' ''info'')], (True, []))) \<and>
   (\<not> has_prompt buff \<longrightarrow> check_prompt password (False, buff) = ([], (False, buff)))"
proof -
  have "length (sends_of (fst (run_install w reboot_after polls))) \<le> 1"
    by (simp add: run_install_def sends_before_sent) (simp add: sends_of_def)
  then show ?thesis
    using sends_before_sent sends_after_sent by (simp add: check_prompt_def)
qed

theorem password_sent_at_most_once_witness:
  "has_prompt ''[sudo] password for bjorn: '' \<and>
   check_prompt ''pw'' (False, ''[sudo] password for bjorn: '') =
     ([ChanSend (''pw'' @ [CHR 0x0A]), Emit (Log ''[SUDO] Password sent'' ''info'')], (True, [])) \<and>
   prompt_seen [] (loop_data [Running (Some ''[su''), Running (Some ''do] password for bjorn: ''),
       Running (Some ''[sudo] password for bjorn: ''), Exited None [] 0]) \<and>
   sends_of (fst (install_loop ''pw'' False (False, [])
      [Running (Some ''[su''), Running (Some ''do] password for bjorn: ''),
       Running (Some ''[sudo] password for bjorn: ''), Exited None [] 0]))
     = [''pw'' @ [CHR 0x0A]]"
proof -
  have prompt: "has_prompt ''[sudo] password for bjorn: ''"
    by code_simp
  have seen: "prompt_seen [] (loop_data [Running (Some ''[su''), Running (Some ''do] password for bjorn: ''),
       Running (Some ''[sudo] password for bjorn: ''), Exited None [] 0])"
    by code_simp
  note inst = password_sent_at_most_once [of "''pw''" False "[]"
      "[Running (Some ''[su''), Running (Some ''do] password for bjorn: ''),
       Running (Some ''[sudo] password for bjorn: ''), Exited None [] 0]"]
  note inst2 = password_sent_at_most_once [of "''pw''" False "''[sudo] password for bjorn: ''"]
  have sent: "sends_of (fst (install_loop ''pw'' False (False, [])
      [Running (Some ''[su''), Running (Some ''do] password for bjorn: ''),
       Running (Some ''[sudo] password for bjorn: ''), Exited None [] 0]))
     = [''pw'' @ [CHR 0x0A]]"
    using conjunct1 [OF inst] seen by (simp only: if_True)
  have chk: "check_prompt ''pw'' (False, ''[sudo] password for bjorn: '') =
     ([ChanSend (''pw'' @ [CHR 0x0A]), Emit (Log ''[SUDO] Password sent'' ''info'')], (True, []))"
    by (rule mp [OF conjunct1 [OF conjunct2 [OF conjunct2 [OF conjunct2 [OF inst2]]]] prompt])
  show ?thesis
    using prompt chk seen sent by (intro conjI)
qed

subsection \<open>Connecting\<close>

lemma then_do_simps:
  "fst (then_do acts res) = fst res"
  "fst (snd (then_do acts res)) = acts @ fst (snd res)"
  "snd (snd (then_do acts res)) = snd (snd res)"
  by (simp_all add: then_do_def split_def)

lemma connection_failed_simps:
  "fst (connection_failed msg w) = False"
  "fst (snd (connection_failed msg w)) = [Emit (Log (''[SSH] Connection failed: '' @ msg) ''error'')]"
  by (simp_all add: connection_failed_def)

lemma connect_finish_attempts: "attempts_of (fst (snd (connect_finish env w))) = []"
  by (simp add: connect_finish_def connection_failed_def attempts_of_def is_attempt_def
      split: transport_outcome.splits)

lemma connect_finish_error:
  "\<not> fst (connect_finish env w) \<Longrightarrow> \<exists>a\<in>set (fst (snd (connect_finish env w))). is_error_log a"
  by (auto simp: connect_finish_def connection_failed_def is_error_log_def
      split: transport_outcome.splits)

lemma connect_finish_ok:
  "\<forall>msg. transport env \<noteq> TransportError msg \<Longrightarrow> fst (connect_finish env w)"
  by (auto simp: connect_finish_def split: transport_outcome.splits)

lemma attempts_of_append: "attempts_of (xs @ ys) = attempts_of xs @ attempts_of ys"
  by (simp add: attempts_of_def)

lemma attempts_of_simps:
  "attempts_of [] = []"
  "attempts_of (KeyAuth p pp # xs) = KeyAuth p pp # attempts_of xs"
  "attempts_of (PasswordAuth pw # xs) = PasswordAuth pw # attempts_of xs"
  "attempts_of (Emit e # xs) = attempts_of xs"
  by (simp_all add: attempts_of_def is_attempt_def)

lemma password_phase_attempts:
  "truthy (cfg_password (w_config w)) \<Longrightarrow>
   attempts_of (fst (snd (password_phase env w))) = [PasswordAuth (the (cfg_password (w_config w)))]"
  by (cases "password_connect env")
    (simp_all add: password_phase_def then_do_simps attempts_of_simps connect_finish_attempts
      connection_failed_simps)

lemma password_phase_error:
  "\<not> fst (password_phase env w) \<Longrightarrow> \<exists>a\<in>set (fst (snd (password_phase env w))). is_error_log a"
proof (cases "truthy (cfg_password (w_config w))")
  case False
  then show ?thesis
    by (simp add: password_phase_def is_error_log_def)
next
  case True
  assume bad: "\<not> fst (password_phase env w)"
  show ?thesis
  proof (cases "password_connect env")
    case Connected
    then have "\<not> fst (connect_finish env w)"
      using bad True by (simp add: password_phase_def then_do_simps)
    then have "\<exists>a\<in>set (fst (snd (connect_finish env w))). is_error_log a"
      by (rule connect_finish_error)
    then show ?thesis
      using True Connected by (auto simp: password_phase_def then_do_simps)
  qed (use True in \<open>simp_all add: password_phase_def then_do_simps connection_failed_simps is_error_log_def\<close>)
qed

lemma password_phase_ok:
  "truthy (cfg_password (w_config w)) \<Longrightarrow> password_connect env = Connected \<Longrightarrow>
   \<forall>msg. transport env \<noteq> TransportError msg \<Longrightarrow> fst (password_phase env w)"
  by (simp add: password_phase_def then_do_simps connect_finish_ok)

lemma connect_no_key:
  "\<not> truthy (resolve_key_path env (w_config w)) \<Longrightarrow> connect env w = password_phase env w"
  by (simp add: connect_def Let_def)

lemma connect_key_first:
  assumes "truthy (resolve_key_path env (w_config w))"
  shows "\<exists>rest. attempts_of (fst (snd (connect env w))) =
           KeyAuth (the (resolve_key_path env (w_config w)))
             (if truthy (cfg_password (w_config w)) then cfg_password (w_config w) else None) # rest"
  using assms
  by (simp add: connect_def Let_def then_do_simps attempts_of_simps)

lemma connect_fallback:
  assumes "truthy (resolve_key_path env (w_config w))"
    and "falls_back (key_connect env (the (resolve_key_path env (w_config w))))"
    and "truthy (cfg_password (w_config w))"
  shows "attempts_of (fst (snd (connect env w))) =
           [KeyAuth (the (resolve_key_path env (w_config w))) (cfg_password (w_config w)),
            PasswordAuth (the (cfg_password (w_config w)))]"
proof -
  show ?thesis
    using assms
    by (cases "key_connect env (the (resolve_key_path env (w_config w)))")
      (simp_all add: connect_def Let_def then_do_simps falls_back_def attempts_of_simps
        password_phase_attempts)
qed

lemma connect_error:
  assumes "\<not> fst (connect env w)"
  shows "\<exists>a\<in>set (fst (snd (connect env w))). is_error_log a"
proof (cases "truthy (resolve_key_path env (w_config w))")
  case False
  then show ?thesis
    using assms password_phase_error by (simp add: connect_no_key)
next
  case True
  show ?thesis
  proof (cases "key_connect env (the (resolve_key_path env (w_config w)))")
    case Connected
    then have "\<not> fst (connect_finish env w)"
      using assms True by (simp add: connect_def Let_def then_do_simps)
    then have "\<exists>a\<in>set (fst (snd (connect_finish env w))). is_error_log a"
      by (rule connect_finish_error)
    then show ?thesis
      using True Connected by (auto simp: connect_def Let_def then_do_simps)
  next
    case (OtherException msg)
    then show ?thesis
      using True by (simp add: connect_def Let_def then_do_simps connection_failed_simps is_error_log_def)
  next
    case (AuthenticationException msg)
    then have "\<not> fst (password_phase env w)"
      using assms True by (simp add: connect_def Let_def then_do_simps)
    then have "\<exists>a\<in>set (fst (snd (password_phase env w))). is_error_log a"
      by (rule password_phase_error)
    then show ?thesis
      using True AuthenticationException by (auto simp: connect_def Let_def then_do_simps)
  next
    case (SSHException msg)
    then have "\<not> fst (password_phase env w)"
      using assms True by (simp add: connect_def Let_def then_do_simps)
    then have "\<exists>a\<in>set (fst (snd (password_phase env w))). is_error_log a"
      by (rule password_phase_error)
    then show ?thesis
      using True SSHException by (auto simp: connect_def Let_def then_do_simps)
  next
    case (FileNotFoundError msg)
    then have "\<not> fst (password_phase env w)"
      using assms True by (simp add: connect_def Let_def then_do_simps)
    then have "\<exists>a\<in>set (fst (snd (password_phase env w))). is_error_log a"
      by (rule password_phase_error)
    then show ?thesis
      using True FileNotFoundError by (auto simp: connect_def Let_def then_do_simps)
  qed
qed

lemma unusable_key_path:
  "truthy (cfg_key_path cfg) \<Longrightarrow> \<not> isfile env (expand env (the (cfg_key_path cfg))) \<Longrightarrow>
   resolve_key_path env cfg = None"
  by (simp add: resolve_key_path_def Let_def)

lemma connect_finish_iff:
  "fst (connect_finish env w) \<longleftrightarrow> (\<forall>msg. transport env \<noteq> TransportError msg)"
  by (auto simp: connect_finish_def connection_failed_def split: transport_outcome.splits)

lemma password_phase_iff:
  "fst (password_phase env w) \<longleftrightarrow>
     truthy (cfg_password (w_config w)) \<and> password_connect env = Connected \<and>
     (\<forall>msg. transport env \<noteq> TransportError msg)"
  by (cases "password_connect env")
    (simp_all add: password_phase_def then_do_simps connect_finish_iff connection_failed_simps)

lemma connect_result_iff:
  "fst (connect env w) \<longleftrightarrow> attempt_succeeds env w \<and> (\<forall>msg. transport env \<noteq> TransportError msg)"
proof (cases "truthy (resolve_key_path env (w_config w))")
  case False
  then show ?thesis
    by (auto simp: connect_no_key password_phase_iff attempt_succeeds_def)
next
  case True
  then show ?thesis
    by (cases "key_connect env (the (resolve_key_path env (w_config w)))")
      (auto simp: connect_def Let_def then_do_simps connect_finish_iff password_phase_iff
        connection_failed_simps attempt_succeeds_def falls_back_def)
qed

lemma password_phase_refused:
  assumes "truthy (cfg_password (w_config w))" "raised (password_connect env) = Some msg"
  shows "password_phase env w =
     (False, [PasswordAuth (the (cfg_password (w_config w))),
              Emit (Log (''[SSH] Connection failed: '' @ msg) ''error'')],
      w\<lparr>w_connected := False\<rparr>)"
  using assms
  by (cases "password_connect env")
    (simp_all add: password_phase_def then_do_def connection_failed_def raised_def)

lemma connect_password_refused:
  assumes "\<not> truthy (resolve_key_path env (w_config w))"
    "truthy (cfg_password (w_config w))" "raised (password_connect env) = Some msg"
  shows "connect env w =
     (False, [PasswordAuth (the (cfg_password (w_config w))),
              Emit (Log (''[SSH] Connection failed: '' @ msg) ''error'')],
      w\<lparr>w_connected := False\<rparr>)"
  using assms by (simp add: connect_no_key password_phase_refused)

lemma connect_key_raises:
  assumes "truthy (resolve_key_path env (w_config w))"
    "key_connect env (the (resolve_key_path env (w_config w))) = OtherException msg"
  shows "connect env w =
     (False, [KeyAuth (the (resolve_key_path env (w_config w)))
                (if truthy (cfg_password (w_config w)) then cfg_password (w_config w) else None),
              Emit (Log (''[SSH] Connection failed: '' @ msg) ''error'')],
      w\<lparr>w_connected := False\<rparr>)"
  using assms by (simp add: connect_def Let_def then_do_def connection_failed_def)

lemma connect_fallback_no_password:
  assumes "truthy (resolve_key_path env (w_config w))"
    "falls_back (key_connect env (the (resolve_key_path env (w_config w))))"
    "\<not> truthy (cfg_password (w_config w))"
  shows "connect env w =
     (False, [KeyAuth (the (resolve_key_path env (w_config w))) None,
              Emit (Log ''[SSH] Key auth failed, falling back to password'' ''warning''),
              Emit (Log ''[SSH] No password available for fallback auth'' ''error'')],
      w)"
  using assms
  by (cases "key_connect env (the (resolve_key_path env (w_config w)))")
    (simp_all add: connect_def Let_def then_do_def password_phase_def falls_back_def)

lemma connect_fallback_refused:
  assumes "truthy (resolve_key_path env (w_config w))"
    "falls_back (key_connect env (the (resolve_key_path env (w_config w))))"
    "truthy (cfg_password (w_config w))" "raised (password_connect env) = Some msg"
  shows "connect env w =
     (False, [KeyAuth (the (resolve_key_path env (w_config w))) (cfg_password (w_config w)),
              Emit (Log ''[SSH] Key auth failed, falling back to password'' ''warning''),
              PasswordAuth (the (cfg_password (w_config w))),
              Emit (Log (''[SSH] Connection failed: '' @ msg) ''error'')],
      w\<lparr>w_connected := False\<rparr>)"
  using assms password_phase_refused [OF assms(3,4)]
  by (cases "key_connect env (the (resolve_key_path env (w_config w)))")
    (simp_all add: connect_def Let_def then_do_def falls_back_def)

lemma then_do_last:
  "fst (snd res) \<noteq> [] \<Longrightarrow> last (fst (snd (then_do acts res))) = last (fst (snd res))"
  by (simp add: then_do_simps)

lemma connect_finish_raises:
  "transport env = TransportError msg \<Longrightarrow>
   connect_finish env w =
     (False, [Emit (Log (''[SSH] Connection failed: '' @ msg) ''error'')], w\<lparr>w_connected := False\<rparr>)"
  by (simp add: connect_finish_def connection_failed_def)

lemma connect_transport_raises:
  assumes "attempt_succeeds env w" "transport env = TransportError msg"
  shows "\<not> fst (connect env w) \<and>
         last (fst (snd (connect env w))) = Emit (Log (''[SSH] Connection failed: '' @ msg) ''error'') \<and>
         snd (snd (connect env w)) = w\<lparr>w_connected := False\<rparr>"
proof (cases "truthy (resolve_key_path env (w_config w))")
  case False
  then show ?thesis
    using assms
    by (simp add: connect_no_key attempt_succeeds_def password_phase_def then_do_simps
        connect_finish_raises)
next
  case True
  then show ?thesis
    using assms
    by (cases "key_connect env (the (resolve_key_path env (w_config w)))")
      (simp_all add: connect_def Let_def attempt_succeeds_def falls_back_def password_phase_def
        then_do_simps connect_finish_raises)
qed

lemma connect_finish_success:
  "fst (connect_finish env w) \<Longrightarrow>
   snd (snd (connect_finish env w)) = w\<lparr>w_client := True, w_connected := True\<rparr> \<and>
   fst (snd (connect_finish env w)) = (if transport env = Transport then [Keepalive 30] else [])"
  by (auto simp: connect_finish_def connection_failed_def split: transport_outcome.splits)

lemma password_phase_success:
  assumes "fst (password_phase env w)"
  shows "snd (snd (password_phase env w)) = w\<lparr>w_client := True, w_connected := True\<rparr> \<and>
         fst (snd (password_phase env w)) \<noteq> [] \<and>
         (transport env = Transport \<longrightarrow> last (fst (snd (password_phase env w))) = Keepalive 30)"
proof -
  have ok: "truthy (cfg_password (w_config w))" "password_connect env = Connected"
    "fst (connect_finish env w)"
    using assms by (simp_all add: password_phase_iff connect_finish_iff)
  show ?thesis
    using ok connect_finish_success [OF ok(3)]
    by (simp add: password_phase_def then_do_simps)
qed

lemma connect_success:
  assumes "fst (connect env w)"
  shows "snd (snd (connect env w)) = w\<lparr>w_client := True, w_connected := True\<rparr> \<and>
         (transport env = Transport \<longrightarrow> last (fst (snd (connect env w))) = Keepalive 30)"
proof (cases "truthy (resolve_key_path env (w_config w))")
  case False
  then show ?thesis
    using assms password_phase_success [of env w] by (simp add: connect_no_key)
next
  case True
  show ?thesis
  proof (cases "key_connect env (the (resolve_key_path env (w_config w)))")
    case Connected
    then have "fst (connect_finish env w)"
      using assms True by (simp add: connect_def Let_def then_do_simps)
    then show ?thesis
      using True Connected connect_finish_success [of env w]
      by (simp add: connect_def Let_def then_do_simps)
  next
    case (OtherException msg)
    then show ?thesis
      using assms True by (simp add: connect_def Let_def then_do_simps connection_failed_simps)
  next
    case (AuthenticationException msg)
    then have "fst (password_phase env w)"
      using assms True by (simp add: connect_def Let_def then_do_simps)
    then show ?thesis
      using True AuthenticationException password_phase_success [of env w]
      by (simp add: connect_def Let_def then_do_simps)
  next
    case (SSHException msg)
    then have "fst (password_phase env w)"
      using assms True by (simp add: connect_def Let_def then_do_simps)
    then show ?thesis
      using True SSHException password_phase_success [of env w]
      by (simp add: connect_def Let_def then_do_simps)
  next
    case (FileNotFoundError msg)
    then have "fst (password_phase env w)"
      using assms True by (simp add: connect_def Let_def then_do_simps)
    then show ?thesis
      using True FileNotFoundError password_phase_success [of env w]
      by (simp add: connect_def Let_def then_do_simps)
  qed
qed

lemma connect_error_last:
  assumes "\<not> fst (connect env w)"
  shows "fst (snd (connect env w)) \<noteq> [] \<and> is_error_log (last (fst (snd (connect env w))))"
proof -
  have fin: "\<not> fst (connect_finish env w) \<Longrightarrow>
      fst (snd (connect_finish env w)) \<noteq> [] \<and> is_error_log (last (fst (snd (connect_finish env w))))"
    by (auto simp: connect_finish_def connection_failed_def is_error_log_def
        split: transport_outcome.splits)
  have pw: "\<not> fst (password_phase env w) \<Longrightarrow>
      fst (snd (password_phase env w)) \<noteq> [] \<and> is_error_log (last (fst (snd (password_phase env w))))"
    using fin
    by (cases "password_connect env")
      (auto simp: password_phase_def then_do_simps connection_failed_simps is_error_log_def)
  show ?thesis
  proof (cases "truthy (resolve_key_path env (w_config w))")
    case False
    then show ?thesis
      using assms pw by (simp add: connect_no_key)
  next
    case True
    then show ?thesis
      using assms fin pw
      by (cases "key_connect env (the (resolve_key_path env (w_config w)))")
        (auto simp: connect_def Let_def then_do_simps connection_failed_simps is_error_log_def)
  qed
qed

lemma resolve_configured:
  "truthy (cfg_key_path cfg) \<Longrightarrow>
   resolve_key_path env cfg =
     (if isfile env (expand env (the (cfg_key_path cfg))) then Some (expand env (the (cfg_key_path cfg)))
      else None)"
  by (simp add: resolve_key_path_def Let_def)

text \<open>
  Claim C6. \<open>connect\<close> tries the key first whenever \<open>_resolve_key_path\<close> finds a key
  file (the configured path if it is a file, and then nothing else; without a configured
  path the first of \<open>id_ed25519\<close>, \<open>id_rsa\<close>, \<open>id_ecdsa\<close> in the \<open>.ssh\<close>
  directory). When the key attempt fails with an authentication, SSH or file-not-found
  exception and a password is configured, the password is tried next. With a configured
  key path that is no file and a password the server accepts, only the password is tried
  and \<open>connect\<close> returns true. \<open>connect\<close> returns true exactly when an attempt
  succeeds and the transport step does not raise; it then holds the client, is connected,
  and has set the keepalive if there is a transport. In every other case it returns
  false, and the last action of the trace is an error log: when the password is refused
  (with or without a key attempt before it), when the key attempt raises another
  exception, when the key attempt falls back and no password is configured, when there
  is neither key nor password, and when the transport step raises. The result is a value
  in every case: every exception of an attempt is handled.
\<close>

theorem connect_key_then_password:
  "(truthy (resolve_key_path env (w_config w)) \<longrightarrow>
      (\<exists>rest. attempts_of (fst (snd (connect env w))) =
         KeyAuth (the (resolve_key_path env (w_config w)))
           (if truthy (cfg_password (w_config w)) then cfg_password (w_config w) else None) # rest)) \<and>
   (\<not> truthy (cfg_key_path (w_config w)) \<longrightarrow>
      resolve_key_path env (w_config w) =
        List.find (isfile env)
          [home env @ ''/.ssh/id_ed25519'', home env @ ''/.ssh/id_rsa'', home env @ ''/.ssh/id_ecdsa'']) \<and>
   (truthy (resolve_key_path env (w_config w)) \<and>
    falls_back (key_connect env (the (resolve_key_path env (w_config w)))) \<and>
    truthy (cfg_password (w_config w)) \<longrightarrow>
      attempts_of (fst (snd (connect env w))) =
        [KeyAuth (the (resolve_key_path env (w_config w))) (cfg_password (w_config w)),
         PasswordAuth (the (cfg_password (w_config w)))]) \<and>
   (truthy (cfg_key_path (w_config w)) \<and>
    \<not> isfile env (expand env (the (cfg_key_path (w_config w)))) \<and>
    truthy (cfg_password (w_config w)) \<and> password_connect env = Connected \<and>
    (\<forall>msg. transport env \<noteq> TransportError msg) \<longrightarrow>
      fst (connect env w) \<and>
      attempts_of (fst (snd (connect env w))) = [PasswordAuth (the (cfg_password (w_config w)))]) \<and>
   (\<not> fst (connect env w) \<longrightarrow> (\<exists>a\<in>set (fst (snd (connect env w))). is_error_log a)) \<and>
   (\<not> truthy (resolve_key_path env (w_config w)) \<and> \<not> truthy (cfg_password (w_config w)) \<longrightarrow>
      connect env w =
        (False, [Emit (Log ''[SSH] No password available for fallback auth'' ''error'')], w)) \<and>
   (fst (connect env w) \<longleftrightarrow>
      attempt_succeeds env w \<and> (\<forall>msg. transport env \<noteq> TransportError msg)) \<and>
   (truthy (cfg_key_path (w_config w)) \<longrightarrow>
      resolve_key_path env (w_config w) =
        (if isfile env (expand env (the (cfg_key_path (w_config w))))
         then Some (expand env (the (cfg_key_path (w_config w)))) else None)) \<and>
   (\<not> truthy (resolve_key_path env (w_config w)) \<and> truthy (cfg_password (w_config w)) \<and>
    raised (password_connect env) = Some msg \<longrightarrow>
      connect env w =
        (False, [PasswordAuth (the (cfg_password (w_config w))),
                 Emit (Log (''[SSH] Connection failed: '' @ msg) ''error'')],
         w\<lparr>w_connected := False\<rparr>)) \<and>
   (truthy (resolve_key_path env (w_config w)) \<and>
    key_connect env (the (resolve_key_path env (w_config w))) = OtherException msg \<longrightarrow>
      connect env w =
        (False, [KeyAuth (the (resolve_key_path env (w_config w)))
                   (if truthy (cfg_password (w_config w)) then cfg_password (w_config w) else None),
                 Emit (Log (''[SSH] Connection failed: '' @ msg) ''error'')],
         w\<lparr>w_connected := False\<rparr>)) \<and>
   (truthy (resolve_key_path env (w_config w)) \<and>
    falls_back (key_connect env (the (resolve_key_path env (w_config w)))) \<and>
    \<not> truthy (cfg_password (w_config w)) \<longrightarrow>
      connect env w =
        (False, [KeyAuth (the (resolve_key_path env (w_config w))) None,
                 Emit (Log ''[SSH] Key auth failed, falling back to password'' ''warning''),
                 Emit (Log ''[SSH] No password available for fallback auth'' ''error'')],
         w)) \<and>
   (truthy (resolve_key_path env (w_config w)) \<and>
    falls_back (key_connect env (the (resolve_key_path env (w_config w)))) \<and>
    truthy (cfg_password (w_config w)) \<and> raised (password_connect env) = Some msg \<longrightarrow>
      connect env w =
        (False, [KeyAuth (the (resolve_key_path env (w_config w))) (cfg_password (w_config w)),
                 Emit (Log ''[SSH] Key auth failed, falling back to password'' ''warning''),
                 PasswordAuth (the (cfg_password (w_config w))),
                 Emit (Log (''[SSH] Connection failed: '' @ msg) ''error'')],
         w\<lparr>w_connected := False\<rparr>)) \<and>
   (attempt_succeeds env w \<and> transport env = TransportError msg \<longrightarrow>
      \<not> fst (connect env w) \<and>
      last (fst (snd (connect env w))) = Emit (Log (''[SSH] Connection failed: '' @ msg) ''error'') \<and>
      snd (snd (connect env w)) = w\<lparr>w_connected := False\<rparr>) \<and>
   (fst (connect env w) \<longrightarrow>
      snd (snd (connect env w)) = w\<lparr>w_client := True, w_connected := True\<rparr> \<and>
      (transport env = Transport \<longrightarrow> last (fst (snd (connect env w))) = Keepalive 30)) \<and>
   (\<not> fst (connect env w) \<longrightarrow>
      fst (snd (connect env w)) \<noteq> [] \<and> is_error_log (last (fst (snd (connect env w)))))"
proof -
  have default: "\<not> truthy (cfg_key_path (w_config w)) \<longrightarrow>
      resolve_key_path env (w_config w) =
        List.find (isfile env)
          [home env @ ''/.ssh/id_ed25519'', home env @ ''/.ssh/id_rsa'', home env @ ''/.ssh/id_ecdsa'']"
    by (simp add: resolve_key_path_def private_key_names_def)
  have unusable: "truthy (cfg_key_path (w_config w)) \<and>
    \<not> isfile env (expand env (the (cfg_key_path (w_config w)))) \<and>
    truthy (cfg_password (w_config w)) \<and> password_connect env = Connected \<and>
    (\<forall>msg. transport env \<noteq> TransportError msg) \<longrightarrow>
      fst (connect env w) \<and>
      attempts_of (fst (snd (connect env w))) = [PasswordAuth (the (cfg_password (w_config w)))]"
  proof (intro impI, elim conjE)
    assume a: "truthy (cfg_key_path (w_config w))"
      "\<not> isfile env (expand env (the (cfg_key_path (w_config w))))"
      "truthy (cfg_password (w_config w))" "password_connect env = Connected"
      "\<forall>msg. transport env \<noteq> TransportError msg"
    have "resolve_key_path env (w_config w) = None"
      using a(1,2) by (rule unusable_key_path)
    then have "connect env w = password_phase env w"
      by (simp add: connect_no_key truthy_def)
    then show "fst (connect env w) \<and>
      attempts_of (fst (snd (connect env w))) = [PasswordAuth (the (cfg_password (w_config w)))]"
      using a(3,4,5) by (simp add: password_phase_ok password_phase_attempts)
  qed
  have neither: "\<not> truthy (resolve_key_path env (w_config w)) \<and> \<not> truthy (cfg_password (w_config w)) \<longrightarrow>
      connect env w =
        (False, [Emit (Log ''[SSH] No password available for fallback auth'' ''error'')], w)"
    by (simp add: connect_no_key password_phase_def)
  show ?thesis
    apply (intro conjI impI)
    subgoal using connect_key_first [of env w] by blast
    subgoal using default by blast
    subgoal using connect_fallback [of env w] by blast
    subgoal using unusable by blast
    subgoal using unusable by blast
    subgoal using connect_error [of env w] by blast
    subgoal using neither by blast
    subgoal by (rule connect_result_iff)
    subgoal by (rule resolve_configured)
    subgoal using connect_password_refused [of env w msg] by blast
    subgoal using connect_key_raises [of env w msg] by blast
    subgoal using connect_fallback_no_password [of env w] by blast
    subgoal using connect_fallback_refused [of env w msg] by blast
    subgoal using connect_transport_raises [of env w msg] by blast
    subgoal using connect_transport_raises [of env w msg] by blast
    subgoal using connect_transport_raises [of env w msg] by blast
    subgoal using connect_success [of env w] by blast
    subgoal using connect_success [of env w] by blast
    subgoal using connect_error_last [of env w] by blast
    subgoal using connect_error_last [of env w] by blast
    done
qed

theorem connect_key_then_password_witness:
  "resolve_key_path demo_env (w_config (demo_worker None (Some ''pw''))) = Some ''/home/u/.ssh/id_rsa'' \<and>
   attempts_of (fst (snd (connect demo_env (demo_worker None (Some ''pw''))))) =
     [KeyAuth ''/home/u/.ssh/id_rsa'' (Some ''pw''), PasswordAuth ''pw''] \<and>
   fst (connect demo_env (demo_worker (Some ''/home/u/missing'') (Some ''pw''))) \<and>
   attempts_of (fst (snd (connect demo_env (demo_worker (Some ''/home/u/missing'') (Some ''pw''))))) =
     [PasswordAuth ''pw''] \<and>
   connect demo_env (demo_worker (Some ''/home/u/missing'') None) =
     (False, [Emit (Log ''[SSH] No password available for fallback auth'' ''error'')],
      demo_worker (Some ''/home/u/missing'') None) \<and>
   is_error_log (Emit (Log ''[SSH] No password available for fallback auth'' ''error'')) \<and>
   connect refusing_env (demo_worker (Some ''/home/u/missing'') (Some ''pw'')) =
     (False, [PasswordAuth ''pw'', Emit (Log ''[SSH] Connection failed: password refused'' ''error'')],
      (demo_worker (Some ''/home/u/missing'') (Some ''pw''))\<lparr>w_connected := False\<rparr>) \<and>
   connect refusing_env (demo_worker None (Some ''pw'')) =
     (False, [KeyAuth ''/home/u/.ssh/id_rsa'' (Some ''pw''),
              Emit (Log ''[SSH] Key auth failed, falling back to password'' ''warning''),
              PasswordAuth ''pw'',
              Emit (Log ''[SSH] Connection failed: password refused'' ''error'')],
      (demo_worker None (Some ''pw''))\<lparr>w_connected := False\<rparr>)"
proof -
  define w1 where "w1 = demo_worker None (Some ''pw'')"
  define w2 where "w2 = demo_worker (Some ''/home/u/missing'') (Some ''pw'')"
  define w3 where "w3 = demo_worker (Some ''/home/u/missing'') None"
  have key1: "resolve_key_path demo_env (w_config w1) = Some ''/home/u/.ssh/id_rsa''"
    unfolding w1_def by code_simp
  have pw1: "cfg_password (w_config w1) = Some ''pw''"
    unfolding w1_def by code_simp
  have hyp1: "truthy (resolve_key_path demo_env (w_config w1)) \<and>
      falls_back (key_connect demo_env (the (resolve_key_path demo_env (w_config w1)))) \<and>
      truthy (cfg_password (w_config w1))"
    unfolding w1_def by code_simp
  have fallback: "attempts_of (fst (snd (connect demo_env w1))) =
      [KeyAuth ''/home/u/.ssh/id_rsa'' (Some ''pw''), PasswordAuth ''pw'']"
    using connect_key_then_password [of demo_env w1] hyp1 unfolding key1 pw1 by simp
  have pw2: "cfg_password (w_config w2) = Some ''pw''"
    unfolding w2_def by code_simp
  have hyp2: "truthy (cfg_key_path (w_config w2)) \<and>
      \<not> isfile demo_env (expand demo_env (the (cfg_key_path (w_config w2)))) \<and>
      truthy (cfg_password (w_config w2)) \<and> password_connect demo_env = Connected"
    unfolding w2_def by code_simp
  have hyp2': "\<forall>msg. transport demo_env \<noteq> TransportError msg"
    by (simp add: demo_env_def)
  have unusable: "fst (connect demo_env w2) \<and>
      attempts_of (fst (snd (connect demo_env w2))) = [PasswordAuth ''pw'']"
    using connect_key_then_password [of demo_env w2] hyp2 hyp2' unfolding pw2 by simp
  have hyp3: "\<not> truthy (resolve_key_path demo_env (w_config w3)) \<and> \<not> truthy (cfg_password (w_config w3))"
    unfolding w3_def by code_simp
  have neither: "connect demo_env w3 =
      (False, [Emit (Log ''[SSH] No password available for fallback auth'' ''error'')], w3)"
    using connect_key_then_password [of demo_env w3] hyp3 by blast
  have err: "is_error_log (Emit (Log ''[SSH] No password available for fallback auth'' ''error''))"
    by (simp add: is_error_log_def)
  have hyp4: "\<not> truthy (resolve_key_path refusing_env (w_config w2)) \<and>
      truthy (cfg_password (w_config w2)) \<and>
      raised (password_connect refusing_env) = Some ''password refused''"
    unfolding w2_def by code_simp
  have refused: "connect refusing_env w2 =
      (False, [PasswordAuth ''pw'', Emit (Log ''[SSH] Connection failed: password refused'' ''error'')],
       w2\<lparr>w_connected := False\<rparr>)"
    using connect_key_then_password [of refusing_env w2 "''password refused''"] hyp4
    unfolding pw2 by simp
  have key5: "resolve_key_path refusing_env (w_config w1) = Some ''/home/u/.ssh/id_rsa''"
    unfolding w1_def by code_simp
  have hyp5: "truthy (resolve_key_path refusing_env (w_config w1)) \<and>
      falls_back (key_connect refusing_env (the (resolve_key_path refusing_env (w_config w1)))) \<and>
      truthy (cfg_password (w_config w1)) \<and>
      raised (password_connect refusing_env) = Some ''password refused''"
    unfolding w1_def by code_simp
  have both: "connect refusing_env w1 =
      (False, [KeyAuth ''/home/u/.ssh/id_rsa'' (Some ''pw''),
               Emit (Log ''[SSH] Key auth failed, falling back to password'' ''warning''),
               PasswordAuth ''pw'',
               Emit (Log ''[SSH] Connection failed: password refused'' ''error'')],
       w1\<lparr>w_connected := False\<rparr>)"
    using connect_key_then_password [of refusing_env w1 "''password refused''"] hyp5
    unfolding key5 pw1 by simp
  show ?thesis
    using key1 fallback unusable neither err refused both unfolding w1_def w2_def w3_def
    by (intro conjI) blast+
qed

end
